theory Spec2Isabelle
  imports Main "HOL-Library.Word"
begin

unbundle bit_operations_syntax

section \<open>Bytes, buffers and errors\<close>

text \<open>
  A Node.js \<open>Buffer\<close> is a sequence of octets. JavaScript numbers that hold
  offsets, lengths and decoded integers are modelled as \<open>int\<close> (or \<open>nat\<close> where
  the source can only produce a non-negative value); all values met here stay far
  below \<open>2^53\<close>, where the double arithmetic of the source is exact.
\<close>

type_synonym byte = "8 word"
type_synonym Buffer = "byte list"

text \<open>
  Every \<open>throw\<close> of the source is a value of this type.
  \<open>LengthError message available requested\<close> is the error built by
  \<open>BufferVisitor.mustHas\<close>; \<open>RangeError\<close> is the \<open>ERR_OUT_OF_RANGE\<close> raised by
  the Node.js \<open>Buffer\<close> read and write methods; \<open>Error message\<close> is a plain
  \<open>new Error(message)\<close>; \<open>InvalidDER\<close> is the error of \<open>ASN1.parseDER\<close>, whose
  message quotes the expected class and tag.
\<close>

datatype Class = UNIVERSAL | APPLICATION | CONTEXT_SPECIFIC | PRIVATE

datatype error =
    LengthError string int int
  | RangeError
  | Error string
  | InvalidDER Class nat

section \<open>BufferVisitor (common.ts)\<close>

record BufferVisitor =
  start :: int
  endp :: int
  buf :: Buffer

text \<open>The constructor: \<open>this.end = end > start ? end : start\<close>.\<close>

definition newBufferVisitor :: "Buffer \<Rightarrow> int \<Rightarrow> int \<Rightarrow> BufferVisitor" where
  "newBufferVisitor b s e = \<lparr> start = s, endp = (if e > s then e else s), buf = b \<rparr>"

definition reset :: "int \<Rightarrow> int \<Rightarrow> BufferVisitor \<Rightarrow> BufferVisitor" where
  "reset s e v =
     (let v1 = v\<lparr> start := s \<rparr>
      in if e \<ge> start v1 then v1\<lparr> endp := e \<rparr>
         else if endp v1 < start v1 then v1\<lparr> endp := start v1 \<rparr>
         else v1)"

definition walk :: "int \<Rightarrow> BufferVisitor \<Rightarrow> BufferVisitor" where
  "walk steps v = (let v1 = v\<lparr> start := endp v \<rparr> in v1\<lparr> endp := endp v1 + steps \<rparr>)"

definition mustHas :: "int \<Rightarrow> string \<Rightarrow> BufferVisitor \<Rightarrow> error + BufferVisitor" where
  "mustHas steps message v =
     (let requested = endp v + steps
      in if requested > int (length (buf v))
         then Inl (LengthError message (int (length (buf v))) requested)
         else Inr (walk 0 v))"

definition mustWalk :: "int \<Rightarrow> string \<Rightarrow> BufferVisitor \<Rightarrow> error + BufferVisitor" where
  "mustWalk steps message v =
     (case mustHas steps message v of
        Inl e \<Rightarrow> Inl e
      | Inr v1 \<Rightarrow> Inr (walk steps v1))"

text \<open>The default message of \<open>mustHas\<close> and \<open>mustWalk\<close>.\<close>

definition tooFew :: string where
  "tooFew = ''Too few bytes to parse.''"

text \<open>The window invariant of a visitor.\<close>

definition window_ok :: "BufferVisitor \<Rightarrow> bool" where
  "window_ok v \<longleftrightarrow> start v \<le> endp v"

section \<open>The Node.js Buffer methods the codec calls\<close>

text \<open>
  \<open>buf[i]\<close>: the octet at index \<open>i\<close>, or \<open>undefined\<close> (here \<open>None\<close>) when \<open>i\<close> is
  not an index of the buffer.
\<close>

definition at :: "Buffer \<Rightarrow> int \<Rightarrow> nat option" where
  "at b i = (if 0 \<le> i \<and> i < int (length b) then Some (unat (b ! nat i)) else None)"

text \<open>
  \<open>buf.slice(start, end)\<close>: a negative index counts from the end of the buffer, and
  both indices are clamped to the buffer.
\<close>

definition clampIndex :: "Buffer \<Rightarrow> int \<Rightarrow> nat" where
  "clampIndex b i =
     (let len = int (length b)
      in nat (if i < 0 then max (len + i) 0 else min i len))"

definition slice :: "Buffer \<Rightarrow> int \<Rightarrow> int \<Rightarrow> Buffer" where
  "slice b s e = take (clampIndex b e - clampIndex b s) (drop (clampIndex b s) b)"

text \<open>The unsigned big-endian value of a sequence of octets.\<close>

definition beValue :: "Buffer \<Rightarrow> nat" where
  "beValue bs = foldl (\<lambda>acc x. acc * 256 + unat x) 0 bs"

text \<open>
  \<open>buf.readUIntBE(offset, byteLength)\<close>. The Node.js API requires
  \<open>0 < byteLength \<le> 6\<close> and \<open>0 \<le> offset \<le> buf.length - byteLength\<close>; Node.js 10 and
  later (the package is developed against the Node.js 11 typings) throw
  \<open>ERR_OUT_OF_RANGE\<close> otherwise.
\<close>

definition readUIntBE :: "Buffer \<Rightarrow> int \<Rightarrow> int \<Rightarrow> error + nat" where
  "readUIntBE b offset byteLength =
     (if byteLength < 1 \<or> 6 < byteLength then Inl RangeError
      else if offset < 0 \<or> int (length b) < offset + byteLength then Inl RangeError
      else Inr (beValue (take (nat byteLength) (drop (nat offset) b))))"

text \<open>
  \<open>buf.writeUInt8(value, offset)\<close> and \<open>buf.writeUIntBE(value, offset, byteLength)\<close>
  throw \<open>ERR_OUT_OF_RANGE\<close> when the value does not fit; the model returns the octets
  written. The offsets the codec passes always lie inside the buffer it has just allocated.
\<close>

definition writeUInt8 :: "int \<Rightarrow> error + byte" where
  "writeUInt8 v = (if v < 0 \<or> 255 < v then Inl RangeError else Inr (word_of_int v))"

fun beBytes :: "nat \<Rightarrow> nat \<Rightarrow> Buffer" where
  "beBytes 0 v = []"
| "beBytes (Suc k) v = beBytes k (v div 256) @ [word_of_nat v]"

definition writeUIntBE :: "nat \<Rightarrow> nat \<Rightarrow> error + Buffer" where
  "writeUIntBE v byteLength =
     (if byteLength < 1 \<or> 6 < byteLength then Inl RangeError
      else if 2 ^ (8 * byteLength) \<le> v then Inl RangeError
      else Inr (beBytes byteLength v))"

text \<open>
  The bitwise operators of JavaScript work on the 32-bit two's complement value of
  their operands (\<open>ToInt32\<close>) and yield a signed 32-bit result.
\<close>

definition jsOr :: "int \<Rightarrow> int \<Rightarrow> int" where
  "jsOr a b = sint ((word_of_int a :: 32 word) OR word_of_int b)"

definition jsAnd :: "int \<Rightarrow> int \<Rightarrow> int" where
  "jsAnd a b = sint ((word_of_int a :: 32 word) AND word_of_int b)"

section \<open>ASN.1 objects (asn1.ts)\<close>

fun classValue :: "Class \<Rightarrow> nat" where
  "classValue UNIVERSAL = 0x00"
| "classValue APPLICATION = 0x40"
| "classValue CONTEXT_SPECIFIC = 0x80"
| "classValue PRIVATE = 0xC0"

text \<open>The class of an identifier octet, from the value of \<open>b1 & 0xc0\<close>.\<close>

definition classOf :: "nat \<Rightarrow> Class" where
  "classOf n =
     (if n = 0x00 then UNIVERSAL
      else if n = 0x40 then APPLICATION
      else if n = 0x80 then CONTEXT_SPECIFIC
      else PRIVATE)"

text \<open>The members of \<open>enum Tag\<close> that the codec itself refers to.\<close>

definition BITSTRING :: nat where "BITSTRING = 3"
definition NULL :: nat where "NULL = 5"
definition SEQUENCE :: nat where "SEQUENCE = 16"
definition SET :: nat where "SET = 17"

text \<open>
  The private field \<open>_value\<close> memoizes the decoded value. The model keeps what the
  codec and the validator look at: whether it is still \<open>undefined\<close>, an array of
  ASN.1 objects, or any other value.
\<close>

datatype 'a memo = Undefined | Children "'a list" | Other

datatype ASN1 = ASN1 (tagClass: Class) (tag: nat) (bytes: Buffer) (isCompound: bool)
  (memoValue: "ASN1 memo")

text \<open>The constructor; \<open>SEQUENCE\<close> and \<open>SET\<close> are always compound.\<close>

definition newASN1 :: "Class \<Rightarrow> nat \<Rightarrow> Buffer \<Rightarrow> bool \<Rightarrow> ASN1" where
  "newASN1 c t d isComp = ASN1 c t d (isComp \<or> t = SEQUENCE \<or> t = SET) Undefined"

definition setValue :: "ASN1 memo \<Rightarrow> ASN1 \<Rightarrow> ASN1" where
  "setValue m a = ASN1 (tagClass a) (tag a) (bytes a) (isCompound a) m"

subsection \<open>Decoding one tag-length-value\<close>

definition tooFewLength :: string where
  "tooFewLength = ''Too few bytes to read ASN.1 value length.''"

text \<open>
  \<open>getValueLength\<close>. The octet read after a successful \<open>mustWalk(1)\<close> exists whenever
  the visitor's \<open>end\<close> was not negative, which holds for every visitor the codec
  creates; the branch for \<open>undefined\<close> is kept as an error of its own.
\<close>

definition getValueLength :: "BufferVisitor \<Rightarrow> error + (nat \<times> BufferVisitor)" where
  "getValueLength bufv =
     (case mustWalk 1 tooFewLength bufv of
        Inl e \<Rightarrow> Inl e
      | Inr v1 \<Rightarrow>
          (case at (buf v1) (start v1) of
             None \<Rightarrow> Inl (Error ''undefined'')
           | Some byte \<Rightarrow>
               if byte AND 0x80 = 0 then Inr (byte, v1)
               else
                 let byteLen = byte AND 0x7f
                 in (case mustWalk (int byteLen) tooFewLength v1 of
                       Inl e \<Rightarrow> Inl e
                     | Inr v2 \<Rightarrow>
                         (case readUIntBE (buf v2) (start v2) (int byteLen) of
                            Inl e \<Rightarrow> Inl e
                          | Inr n \<Rightarrow> Inr (n, v2)))))"

text \<open>
  The body of \<open>_fromDER\<close> up to the construction of the object: identifier octet,
  length, the check of the NULL tag and the value octets. An \<open>undefined\<close> identifier
  octet only meets bitwise operators, which read it as 0.
\<close>

definition decodeTLV :: "BufferVisitor \<Rightarrow> error + (ASN1 \<times> BufferVisitor)" where
  "decodeTLV bufv =
     (if length (buf bufv) = 0 then Inl (Error ''ASN1 syntax error: invalid Generalized Time'')
      else
        (case mustWalk 1 ''Too few bytes to read ASN.1 tag.'' bufv of
           Inl e \<Rightarrow> Inl e
         | Inr v1 \<Rightarrow>
             let b1 = (case at (buf v1) (start v1) of None \<Rightarrow> 0 | Some b \<Rightarrow> b);
                 tClass = b1 AND 0xc0;
                 tg = b1 AND 0x1f
             in (case getValueLength v1 of
                   Inl e \<Rightarrow> Inl e
                 | Inr (valueLen, v2) \<Rightarrow>
                     (case mustHas (int valueLen) tooFew v2 of
                        Inl e \<Rightarrow> Inl e
                      | Inr v3 \<Rightarrow>
                          if valueLen \<noteq> 0 \<and> tg = NULL
                          then Inl (Error ''invalid value length or NULL tag.'')
                          else
                            (case mustWalk (int valueLen) tooFew v3 of
                               Inl e \<Rightarrow> Inl e
                             | Inr v4 \<Rightarrow>
                                 let isComp = (b1 AND 0x20 = 0x20)
                                 in Inr (newASN1 (classOf tClass) tg
                                           (slice (buf v4) (start v4) (endp v4)) isComp,
                                         v4))))))"

text \<open>What a successful step of the visitor and of the decoder leaves behind.\<close>

lemma mustHas_Inr:
  "mustHas n m v = Inr v' \<Longrightarrow>
   buf v' = buf v \<and> endp v' = endp v \<and> start v' = endp v \<and> endp v + n \<le> int (length (buf v))"
  by (auto simp: mustHas_def walk_def Let_def split: if_splits)

lemma mustWalk_Inr:
  "mustWalk n m v = Inr v' \<Longrightarrow>
   buf v' = buf v \<and> endp v' = endp v + n \<and> start v' = endp v
   \<and> endp v + n \<le> int (length (buf v))"
  by (auto simp: mustWalk_def walk_def Let_def split: sum.splits dest!: mustHas_Inr)

lemma getValueLength_Inr:
  "getValueLength v = Inr (n, v') \<Longrightarrow>
   buf v' = buf v \<and> endp v + 1 \<le> endp v' \<and> start v' \<le> endp v' \<and> 0 \<le> endp v
   \<and> endp v' \<le> int (length (buf v))"
  by (auto simp: getValueLength_def Let_def at_def
      split: sum.splits option.splits if_splits dest!: mustWalk_Inr)

lemma decodeTLV_Inr:
  "decodeTLV v = Inr (a, v') \<Longrightarrow>
   buf v' = buf v \<and> endp v + 2 \<le> endp v' \<and> length (bytes a) < length (buf v)"
  by (auto simp: decodeTLV_def Let_def newASN1_def slice_def clampIndex_def
      split: sum.splits option.splits if_splits prod.splits
      dest!: mustWalk_Inr mustHas_Inr getValueLength_Inr)

text \<open>
  \<open>_fromDER\<close> and \<open>_parseCompound\<close>, with the \<open>while\<close> loop of the latter as
  \<open>parseLoop\<close>. The visitor is returned with the object, since the caller reads its
  \<open>end\<close> afterwards. The recursion ends because a decoded object takes at least two
  octets of the buffer and its value octets are fewer than the buffer's.
\<close>

function fromDER_internal :: "BufferVisitor \<Rightarrow> bool \<Rightarrow> error + (ASN1 \<times> BufferVisitor)"
  and parseCompound_internal :: "Buffer \<Rightarrow> bool \<Rightarrow> error + ASN1 list"
  and parseLoop :: "BufferVisitor \<Rightarrow> bool \<Rightarrow> int \<Rightarrow> int \<Rightarrow> ASN1 list \<Rightarrow> error + ASN1 list"
where
  "fromDER_internal bufv deepParse =
     (case decodeTLV bufv of
        Inl e \<Rightarrow> Inl e
      | Inr (asn1, bufv') \<Rightarrow>
          if isCompound asn1 \<and> deepParse
          then (case parseCompound_internal (bytes asn1) deepParse of
                  Inl e \<Rightarrow> Inl e
                | Inr vs \<Rightarrow> Inr (setValue (Children vs) asn1, bufv'))
          else Inr (asn1, bufv'))"
| "parseCompound_internal b deepParse =
     parseLoop (newBufferVisitor b 0 0) deepParse (int (length b)) 0 []"
| "parseLoop bufv deepParse len readByteLen values =
     (if readByteLen < len
      then (case fromDER_internal bufv deepParse of
              Inl e \<Rightarrow> Inl e
            | Inr (asn1, bufv') \<Rightarrow>
                parseLoop bufv' deepParse len (readByteLen + (endp bufv' - endp bufv))
                  (values @ [asn1]))
      else Inr values)"
  by pat_completeness auto

lemma fromDER_internal_Inr:
  "fromDER_internal_parseCompound_internal_parseLoop_dom (Inl (v, d)) \<Longrightarrow>
   fromDER_internal v d = Inr (a, v') \<Longrightarrow> buf v' = buf v \<and> endp v + 2 \<le> endp v'"
  by (auto simp: fromDER_internal.psimps split: sum.splits prod.splits if_splits
      dest!: decodeTLV_Inr)

termination fromDER_internal
  apply (relation "inv_image (less_than <*lex*> less_than)
     (\<lambda>x. case x of
        Inl (v, d) \<Rightarrow> (length (buf v), 0)
      | Inr (Inl (b, d)) \<Rightarrow> (length b, 2 + length b)
      | Inr (Inr (v, d, len, r, vs)) \<Rightarrow> (length (buf v), 1 + nat (len - r)))")
      apply (auto dest!: decodeTLV_Inr fromDER_internal_Inr simp: newBufferVisitor_def)
  done

declare fromDER_internal.simps [simp del]
declare parseCompound_internal.simps [simp del]
declare parseLoop.simps [simp del]

subsection \<open>Entry points\<close>

definition fromDER :: "Buffer \<Rightarrow> bool \<Rightarrow> error + ASN1" where
  "fromDER b deepParse =
     (case fromDER_internal (newBufferVisitor b 0 0) deepParse of
        Inl e \<Rightarrow> Inl e
      | Inr (asn1, bufv) \<Rightarrow> Inr asn1)"

definition parseDER :: "Buffer \<Rightarrow> Class \<Rightarrow> nat \<Rightarrow> error + ASN1" where
  "parseDER b tClass tg =
     (case fromDER_internal (newBufferVisitor b 0 0) False of
        Inl e \<Rightarrow> Inl e
      | Inr (obj, bufv) \<Rightarrow>
          if tagClass obj \<noteq> tClass \<and> tag obj \<noteq> tg then Inl (InvalidDER tClass tg)
          else Inr obj)"

subsection \<open>Encoding\<close>

definition getValueLengthByte :: "nat \<Rightarrow> error + nat" where
  "getValueLengthByte valueLen =
     (if valueLen \<le> 127 then Inr 0
      else if valueLen \<le> 0xff then Inr 1
      else if valueLen \<le> 0xffff then Inr 2
      else if valueLen \<le> 0xffffff then Inr 3
      else if valueLen \<le> 0xffffffff then Inr 4
      else if valueLen \<le> 0xffffffffff then Inr 5
      else if valueLen \<le> 0xffffffffffff then Inr 6
      else Inl (Error ''invalid value length''))"

text \<open>
  \<open>toDER\<close>. The buffer is allocated with \<open>2 + valueLenBytes + bytes.length\<close> octets and
  every one of them is written, so the result is the concatenation of what is written.
\<close>

definition toDER :: "ASN1 \<Rightarrow> error + Buffer" where
  "toDER a =
     (let b1 = jsOr (int (classValue (tagClass a))) (int (tag a));
          b1 = (if isCompound a then jsOr b1 0x20 else b1)
      in (case getValueLengthByte (length (bytes a)) of
            Inl e \<Rightarrow> Inl e
          | Inr valueLenBytes \<Rightarrow>
              (case writeUInt8 b1 of
                 Inl e \<Rightarrow> Inl e
               | Inr o1 \<Rightarrow>
                   if valueLenBytes = 0
                   then (case writeUInt8 (int (length (bytes a))) of
                           Inl e \<Rightarrow> Inl e
                         | Inr o2 \<Rightarrow> Inr ([o1, o2] @ bytes a))
                   else (case writeUInt8 (jsOr (int valueLenBytes) 0x80) of
                           Inl e \<Rightarrow> Inl e
                         | Inr o2 \<Rightarrow>
                             (case writeUIntBE (length (bytes a)) valueLenBytes of
                                Inl e \<Rightarrow> Inl e
                              | Inr lenBytes \<Rightarrow> Inr ([o1, o2] @ lenBytes @ bytes a))))))"

section \<open>The cursor\<close>

text \<open>
  C9. The window invariant \<open>end \<ge> start\<close> holds after construction with any
  arguments, after \<open>reset\<close> with any arguments (also inverted ones), and is kept by
  \<open>walk n\<close> and \<open>mustWalk n\<close> for \<open>n \<ge> 0\<close> and by \<open>mustHas n\<close> whenever they return.
\<close>

theorem window_invariant:
  "window_ok (newBufferVisitor b s e)
   \<and> (window_ok v \<longrightarrow> window_ok (reset s e v))
   \<and> (window_ok v \<and> 0 \<le> n \<longrightarrow> window_ok (walk n v))
   \<and> (window_ok v \<and> mustHas n m v = Inr v' \<longrightarrow> window_ok v')
   \<and> (window_ok v \<and> 0 \<le> n \<and> mustWalk n m v = Inr v'' \<longrightarrow> window_ok v'')"
  by (auto simp: window_ok_def newBufferVisitor_def reset_def walk_def mustHas_def
        mustWalk_def Let_def split: if_splits sum.splits)

theorem window_invariant_witness:
  "window_ok (newBufferVisitor [1, 2, 3] 5 2)
   \<and> window_ok (reset 7 4 (newBufferVisitor [1, 2, 3] 0 1))
   \<and> window_ok (walk 2 (newBufferVisitor [1, 2, 3] 0 1))
   \<and> mustHas 2 tooFew (newBufferVisitor [1, 2, 3] 0 1) = Inr (newBufferVisitor [1, 2, 3] 1 1)
   \<and> window_ok (newBufferVisitor [1, 2, 3] 1 1)
   \<and> mustWalk 2 tooFew (newBufferVisitor [1, 2, 3] 0 1) = Inr (newBufferVisitor [1, 2, 3] 1 3)
   \<and> window_ok (newBufferVisitor [1, 2, 3] 1 3)"
proof -
  let ?v = "newBufferVisitor [1, 2, 3] 0 1"
  have c: "window_ok ?v" and n: "(0::int) \<le> 2"
    by (simp_all add: window_ok_def newBufferVisitor_def)
  have h: "mustHas 2 tooFew ?v = Inr (newBufferVisitor [1, 2, 3] 1 1)"
    by (simp add: mustHas_def newBufferVisitor_def walk_def Let_def)
  have w: "mustWalk 2 tooFew ?v = Inr (newBufferVisitor [1, 2, 3] 1 3)"
    by (simp add: mustWalk_def mustHas_def newBufferVisitor_def walk_def Let_def)
  have a: "window_ok (newBufferVisitor [1, 2, 3] 5 2)"
    using window_invariant [of "[1, 2, 3]" 5 2] by blast
  have r: "window_ok (reset 7 4 ?v)"
    using window_invariant [of "[1, 2, 3]" 7 4 ?v] c by blast
  have "window_ok (walk 2 ?v) \<and> window_ok (newBufferVisitor [1, 2, 3] 1 1)
        \<and> window_ok (newBufferVisitor [1, 2, 3] 1 3)"
    using window_invariant [of "[1, 2, 3]" 0 0 ?v 2 tooFew
        "newBufferVisitor [1, 2, 3] 1 1" "newBufferVisitor [1, 2, 3] 1 3"] c n h w
    by blast
  with a r h w show ?thesis by blast
qed


text \<open>
  C8, as the code has it. \<open>mustHas n\<close> throws exactly when \<open>end + n\<close> exceeds the length
  of the buffer, and the error carries \<open>available\<close> = that length and
  \<open>requested = end + n\<close>. When it does not throw it calls \<open>walk(0)\<close>: \<open>end\<close> and the
  buffer are unchanged, and \<open>start\<close> is moved up to \<open>end\<close>.
\<close>

theorem mustHas_contract:
  "mustHas n m v =
     (if endp v + n > int (length (buf v))
      then Inl (LengthError m (int (length (buf v))) (endp v + n))
      else Inr (v\<lparr> start := endp v \<rparr>))"
  by (simp add: mustHas_def walk_def Let_def)

text \<open>
  The call is therefore not a no-op: on a window \<open>[0, 1)\<close> over three octets,
  \<open>mustHas(1)\<close> returns with the window \<open>[1, 1)\<close>.
\<close>

theorem mustHas_noop_counterexample:
  "mustHas 1 tooFew \<lparr> start = 0, endp = 1, buf = [1, 2, 3] \<rparr>
     \<noteq> Inr \<lparr> start = 0, endp = 1, buf = [1, 2, 3] \<rparr>"
  by (simp add: mustHas_def walk_def Let_def)

section \<open>Decoding\<close>

text \<open>Without deep parsing \<open>_fromDER\<close> is the decoding of one tag-length-value.\<close>

lemma fromDER_internal_shallow: "fromDER_internal v False = decodeTLV v"
  by (simp add: fromDER_internal.simps split: sum.splits prod.splits)

lemma getValueLength_no_InvalidDER: "getValueLength v \<noteq> Inl (InvalidDER c t)"
  by (auto simp: getValueLength_def mustWalk_def mustHas_def readUIntBE_def Let_def
      split: sum.splits option.splits if_splits)

lemma decodeTLV_no_InvalidDER: "decodeTLV v \<noteq> Inl (InvalidDER c t)"
  using getValueLength_no_InvalidDER [of _ c t]
  by (auto simp: decodeTLV_def mustWalk_def mustHas_def Let_def
      split: sum.splits option.splits if_splits prod.splits)

lemma fromDER_decodeTLV:
  "decodeTLV (newBufferVisitor b 0 0) = Inl e \<Longrightarrow> fromDER b deepParse = Inl e"
  by (simp add: fromDER_def fromDER_internal.simps)

lemmas decode_defs = fromDER_def decodeTLV_def getValueLength_def
      mustWalk_def mustHas_def walk_def newBufferVisitor_def at_def Let_def NULL_def
      newASN1_def classOf_def slice_def clampIndex_def SEQUENCE_def SET_def readUIntBE_def
      beValue_def tooFew_def tooFewLength_def

text \<open>
  C3. \<open>parseDER\<close> throws its class/tag error exactly when the decoded object differs
  from the expectation in both class and tag; when the class or the tag matches, the
  decoded object is returned, whatever the other is.
\<close>

theorem parseDER_lenient:
  "(parseDER b c t = Inl (InvalidDER c t)
      \<longleftrightarrow> (\<exists>obj. fromDER b False = Inr obj \<and> tagClass obj \<noteq> c \<and> tag obj \<noteq> t))
   \<and> (\<forall>obj. fromDER b False = Inr obj \<and> (tagClass obj = c \<or> tag obj = t)
          \<longrightarrow> parseDER b c t = Inr obj)"
  using decodeTLV_no_InvalidDER [of "newBufferVisitor b 0 0" c t]
  by (auto simp: parseDER_def fromDER_def fromDER_internal_shallow
      split: sum.splits prod.splits if_splits)

theorem parseDER_lenient_witness:
  "fromDER [0x02, 0x01, 0x05] False = Inr (ASN1 UNIVERSAL 2 [0x05] False Undefined)
   \<and> parseDER [0x02, 0x01, 0x05] UNIVERSAL 4 = Inr (ASN1 UNIVERSAL 2 [0x05] False Undefined)
   \<and> parseDER [0x02, 0x01, 0x05] APPLICATION 2 = Inr (ASN1 UNIVERSAL 2 [0x05] False Undefined)
   \<and> parseDER [0x02, 0x01, 0x05] APPLICATION 4 = Inl (InvalidDER APPLICATION 4)"
proof -
  let ?n = "ASN1 UNIVERSAL 2 [0x05] False Undefined"
  have d: "fromDER [0x02, 0x01, 0x05] False = Inr ?n"
    by (simp add: fromDER_internal_shallow decode_defs)
  have "parseDER [0x02, 0x01, 0x05] UNIVERSAL 4 = Inr ?n"
    using parseDER_lenient [of "[0x02, 0x01, 0x05]" UNIVERSAL 4] d by simp
  moreover have "parseDER [0x02, 0x01, 0x05] APPLICATION 2 = Inr ?n"
    using parseDER_lenient [of "[0x02, 0x01, 0x05]" APPLICATION 2] d by simp
  moreover have "parseDER [0x02, 0x01, 0x05] APPLICATION 4 = Inl (InvalidDER APPLICATION 4)"
    using parseDER_lenient [of "[0x02, 0x01, 0x05]" APPLICATION 4] d by simp
  ultimately show ?thesis using d by simp
qed

text \<open>
  C10. The rejection of a NULL with content looks at the tag number only. Whenever the
  low five bits of the identifier octet are 5 and the declared value length is not 0,
  \<open>fromDER\<close> throws, whatever the class bits are: the length error of \<open>mustHas\<close> when
  the buffer is shorter than declared, and \<open>invalid value length or NULL tag.\<close>
  otherwise. The witness is a context-specific \<open>[5]\<close> with one octet of content.
\<close>

theorem null_length_rejected:
  assumes "at b 0 = Some b1" and "b1 AND 0x1f = NULL"
    and "getValueLength (walk 1 (newBufferVisitor b 0 0)) = Inr (valueLen, v)"
    and "valueLen \<noteq> 0"
  shows "fromDER b deepParse =
           (if endp v + int valueLen > int (length b)
            then Inl (LengthError tooFew (int (length b)) (endp v + int valueLen))
            else Inl (Error ''invalid value length or NULL tag.''))"
proof -
  from assms(1) have ne: "b \<noteq> []" by (auto simp: at_def split: if_splits)
  let ?v1 = "\<lparr> start = 0, endp = 1, buf = b \<rparr>"
  have nb: "newBufferVisitor b 0 0 = \<lparr> start = 0, endp = 0, buf = b \<rparr>"
    by (simp add: newBufferVisitor_def)
  have w1: "walk 1 (newBufferVisitor b 0 0) = ?v1"
    by (simp add: walk_def newBufferVisitor_def Let_def)
  have w: "mustWalk 1 ''Too few bytes to read ASN.1 tag.'' \<lparr> start = 0, endp = 0, buf = b \<rparr>
             = Inr ?v1"
    using ne by (cases b) (simp_all add: mustWalk_def mustHas_def walk_def Let_def)
  have g: "getValueLength ?v1 = Inr (valueLen, v)"
    using assms(3) by (simp add: w1)
  from getValueLength_Inr [OF g] have bv: "buf v = b" by simp
  have "decodeTLV (newBufferVisitor b 0 0) =
           (if endp v + int valueLen > int (length b)
            then Inl (LengthError tooFew (int (length b)) (endp v + int valueLen))
            else Inl (Error ''invalid value length or NULL tag.''))"
    using ne assms(1,2,4)
    by (simp add: decodeTLV_def nb w g bv mustHas_def Let_def)
  then show ?thesis by (auto intro: fromDER_decodeTLV split: if_splits)
qed

theorem null_length_rejected_witness:
  "fromDER [0x85, 0x01, 0x00] True = Inl (Error ''invalid value length or NULL tag.'')"
proof -
  have a: "at [0x85, 0x01, 0x00] 0 = Some 0x85" by (simp add: at_def)
  have b: "(0x85::nat) AND 0x1f = NULL" by (simp add: NULL_def)
  have c: "getValueLength (walk 1 (newBufferVisitor [0x85, 0x01, 0x00] 0 0))
             = Inr (1, \<lparr> start = 1, endp = 2, buf = [0x85, 0x01, 0x00] \<rparr>)"
    by (simp add: decode_defs)
  have d: "(1::nat) \<noteq> 0" by simp
  show ?thesis using null_length_rejected [OF a b c d, of True] by simp
qed

text \<open>
  C7, as the code has it. A length octet of exactly \<open>0x80\<close> asks for zero further
  length octets; \<open>getValueLength\<close> then calls \<open>readUIntBE(start, 0)\<close>, which is out of
  the range \<open>1..6\<close> of \<open>byteLength\<close>: \<open>fromDER\<close> throws that range error and no object
  is produced.
\<close>

theorem indefinite_length_octet:
  assumes "2 \<le> length b" and "b ! 1 = 0x80"
  shows "fromDER b deepParse = Inl RangeError"
proof -
  from assms(1) have ne: "b \<noteq> []" by auto
  have "decodeTLV (newBufferVisitor b 0 0) = Inl RangeError"
    using assms ne
    by (simp add: decodeTLV_def getValueLength_def mustWalk_def mustHas_def walk_def
        newBufferVisitor_def at_def Let_def readUIntBE_def)
  then show ?thesis by (rule fromDER_decodeTLV)
qed

theorem indefinite_length_octet_witness:
  "fromDER [0x30, 0x80, 0x00, 0x00] False = Inl RangeError"
proof -
  have a: "2 \<le> length [0x30, 0x80, 0x00, 0x00 :: byte]" by simp
  have b: "[0x30, 0x80, 0x00, 0x00 :: byte] ! 1 = 0x80" by simp
  show ?thesis using indefinite_length_octet [OF a b] by simp
qed

text \<open>
  An OCTET STRING header followed by the length octet \<open>0x80\<close> does not decode to an
  object with no value octets.
\<close>

theorem indefinite_length_counterexample:
  "fromDER [0x04, 0x80] False = Inl RangeError"
  by (simp add: fromDER_internal_shallow decode_defs)


section \<open>Encoding and decoding again\<close>

text \<open>Big-endian octets and their value.\<close>

lemma beValue_snoc: "beValue (xs @ [x]) = beValue xs * 256 + unat x"
  by (simp add: beValue_def)

lemma length_beBytes: "length (beBytes k v) = k"
  by (induction k arbitrary: v) simp_all

lemma unat_byte_of_nat: "unat (word_of_nat v :: byte) = v mod 256"
  by (simp add: unat_of_nat)

lemma beValue_beBytes: "v < 256 ^ k \<Longrightarrow> beValue (beBytes k v) = v"
proof (induction k arbitrary: v)
  case 0
  then show ?case by (simp add: beValue_def)
next
  case (Suc k)
  from Suc.prems have "v div 256 < 256 ^ k"
    by (simp add: less_mult_imp_div_less mult.commute)
  with Suc.IH have "beValue (beBytes k (v div 256)) = v div 256" by simp
  then show ?case by (simp add: beValue_snoc unat_byte_of_nat)
qed

lemma low5: "t < 32 \<Longrightarrow> (t::nat) AND 31 = t"
proof -
  assume "t < 32"
  then have "take_bit 5 t = t" by (simp add: take_bit_nat_eq_self)
  then show ?thesis by (simp add: take_bit_eq_mask mask_eq_exp_minus_1)
qed

lemma low5_and: 
  assumes "t < 32" shows "(t::nat) AND numeral k = t AND (31 AND numeral k)"
proof -
  have "t AND numeral k = (t AND 31) AND numeral k" using low5[OF assms] by simp
  then show ?thesis by (simp only: and.assoc)
qed

lemma a1: "t < 32 \<Longrightarrow> (t::nat) AND 0xc0 = 0"
  by (subst low5_and) simp_all

lemma a2: "t < 32 \<Longrightarrow> (t::nat) AND 0x20 = 0"
  by (subst low5_and) simp_all

lemma or_lt: "(a::nat) < 2 ^ n \<Longrightarrow> b < 2 ^ n \<Longrightarrow> a OR b < 2 ^ n"
  by (metis take_bit_nat_eq_self_iff take_bit_or)

lemma jsOr_nat:
  assumes "a < 2 ^ 31" "b < 2 ^ 31"
  shows "jsOr (int a) (int b) = int (a OR b)"
proof -
  have lt: "a OR b < 2 ^ 31" using assms by (rule or_lt)
  have "(word_of_int (int a) :: 32 word) OR word_of_int (int b) = word_of_nat (a OR b)"
    by (simp add: of_nat_or_eq)
  moreover have "sint (word_of_nat (a OR b) :: 32 word) = int (a OR b)"
  proof -
    have "int (a OR b) < 2 ^ 31" using lt by (metis of_nat_less_iff of_nat_numeral of_nat_power)
    then show ?thesis by (simp add: signed_of_nat signed_take_bit_int_eq_self)
  qed
  ultimately show ?thesis by (simp add: jsOr_def)
qed

lemma n127: "n \<le> 127 \<Longrightarrow> (n::nat) AND 0x80 = 0"
proof -
  assume "n \<le> 127"
  then have "take_bit 7 n = n" by (simp add: take_bit_nat_eq_self)
  then have "n AND 127 = n" by (simp add: take_bit_eq_mask mask_eq_exp_minus_1)
  then have "n AND 0x80 = (n AND 127) AND 0x80" by simp
  also have "\<dots> = n AND (127 AND 0x80)" by (simp only: and.assoc)
  finally show ?thesis by simp
qed

lemma or_and_distrib_nat: "((a::nat) OR b) AND c = (a AND c) OR (b AND c)"
  by (rule bit_eqI) (auto simp: bit_and_iff bit_or_iff)

lemma writeUInt8_nat: "n < 256 \<Longrightarrow> writeUInt8 (int n) = Inr (word_of_nat n) \<and> unat (word_of_nat n :: byte) = n"
  by (simp add: writeUInt8_def unat_of_nat)

lemma idOctet:
  assumes "t \<le> 30"
  shows "\<exists>w. writeUInt8 (if ic then jsOr (jsOr (int (classValue c)) (int t)) 0x20
                          else jsOr (int (classValue c)) (int t)) = Inr w
             \<and> unat w AND 0xc0 = classValue c \<and> unat w AND 0x1f = t
             \<and> (unat w AND 0x20 = 0x20) = ic"
proof -
  from assms have t: "t < 32" by simp
  let ?x = "classValue c OR t"
  let ?y = "if ic then ?x OR 32 else ?x"
  have cv: "classValue c < 2 ^ 8" by (cases c) simp_all
  have t8: "t < 2 ^ 8" using t by simp
  have x8: "?x < 2 ^ 8" using cv t8 by (rule or_lt)
  have "(32::nat) < 2 ^ 8" by simp
  with x8 have "?x OR 32 < 2 ^ 8" by (rule or_lt)
  with x8 have y8: "?y < 256" by simp
  have j1: "jsOr (int (classValue c)) (int t) = int ?x"
    using cv t by (intro jsOr_nat) simp_all
  have j2: "jsOr (int ?x) 0x20 = int (?x OR 32)"
    using x8 jsOr_nat [of ?x 32] by simp
  have e: "(if ic then jsOr (jsOr (int (classValue c)) (int t)) 0x20
            else jsOr (int (classValue c)) (int t)) = int ?y"
    by (simp add: j1 j2)
  have c1: "classValue c AND 0xc0 = classValue c" "classValue c AND 0x1f = 0"
     "classValue c AND 0x20 = 0"
    by (cases c; simp)+
  have y1: "?y AND 0xc0 = classValue c"
    using t by (simp add: or_and_distrib_nat c1 a1)
  have y2: "?y AND 0x1f = t"
    using t by (simp add: or_and_distrib_nat c1 low5)
  have y3: "(?y AND 0x20 = 0x20) = ic"
    using t by (simp add: or_and_distrib_nat c1 a2)
  from writeUInt8_nat [OF y8]
  have w: "writeUInt8 (int ?y) = Inr (word_of_nat ?y)"
    and u: "unat (word_of_nat ?y :: byte) = ?y" by blast+
  show ?thesis
  proof (intro exI conjI)
    show "writeUInt8 (if ic then jsOr (jsOr (int (classValue c)) (int t)) 0x20
                          else jsOr (int (classValue c)) (int t)) = Inr (word_of_nat ?y)"
      by (simp only: e w)
    show "unat (word_of_nat ?y :: byte) AND 0xc0 = classValue c" by (simp only: u y1)
    show "unat (word_of_nat ?y :: byte) AND 0x1f = t" by (simp only: u y2)
    show "(unat (word_of_nat ?y :: byte) AND 0x20 = 0x20) = ic" by (simp only: u y3)
  qed
qed


lemma slice_mid:
  "slice (hdr @ d) (int (length hdr)) (int (length hdr) + int (length d)) = d"
  by (simp add: slice_def clampIndex_def Let_def)

lemma getValueLength_short:
  assumes "unat o2 \<le> 127"
  shows "getValueLength \<lparr> start = 0, endp = 1, buf = o1 # o2 # d \<rparr>
           = Inr (unat o2, \<lparr> start = 1, endp = 2, buf = o1 # o2 # d \<rparr>)"
  using n127 [OF assms]
  by (simp add: getValueLength_def mustWalk_def mustHas_def walk_def at_def Let_def)

lemma getValueLength_long:
  assumes "unat o2 AND 0x80 \<noteq> 0" and "unat o2 AND 0x7f = k" and "1 \<le> k" and "k \<le> 6"
    and "length lb = k"
  shows "getValueLength \<lparr> start = 0, endp = 1, buf = o1 # o2 # lb @ d \<rparr>
           = Inr (beValue lb, \<lparr> start = 2, endp = 2 + int k, buf = o1 # o2 # lb @ d \<rparr>)"
  using assms
  by (simp add: getValueLength_def mustWalk_def mustHas_def walk_def at_def Let_def
      readUIntBE_def)

lemma decodeTLV_after_length:
  assumes "getValueLength \<lparr> start = 0, endp = 1, buf = o1 # rest \<rparr>
             = Inr (length d, \<lparr> start = s, endp = int (length (o1 # hdr)), buf = o1 # rest \<rparr>)"
    and "o1 # rest = (o1 # hdr) @ d"
    and "\<not> (length d \<noteq> 0 \<and> unat o1 AND 0x1f = NULL)"
  shows "decodeTLV (newBufferVisitor (o1 # rest) 0 0)
           = Inr (newASN1 (classOf (unat o1 AND 0xc0)) (unat o1 AND 0x1f) d
                    (unat o1 AND 0x20 = 0x20),
                  \<lparr> start = int (length (o1 # hdr)),
                    endp = int (length (o1 # hdr)) + int (length d), buf = o1 # rest \<rparr>)"
proof -
  have sl: "slice (o1 # rest) (int (length (o1 # hdr))) (int (length (o1 # hdr)) + int (length d)) = d"
    unfolding assms(2) by (rule slice_mid)
  have len: "length (o1 # rest) = length (o1 # hdr) + length d"
    unfolding assms(2) by simp
  have h1: "1 \<le> int (length (o1 # hdr))" by simp
  show ?thesis
    using assms(3) sl len h1
    by (simp add: decodeTLV_def newBufferVisitor_def mustWalk_def mustHas_def walk_def
        at_def Let_def assms(1) del: length_Cons list.size)
qed

lemma getValueLengthByte_Inr:
  "getValueLengthByte n = Inr k \<Longrightarrow>
     (k = 0 \<and> n \<le> 127) \<or> (1 \<le> k \<and> k \<le> 6 \<and> 127 < n \<and> n < 256 ^ k)"
  by (auto simp: getValueLengthByte_def split: if_splits)

lemma getValueLengthByte_ok: "n < 2 ^ 48 \<Longrightarrow> \<exists>k. getValueLengthByte n = Inr k"
  by (simp add: getValueLengthByte_def)

lemma lenOctet:
  assumes "1 \<le> k" and "k \<le> (6::nat)"
  shows "\<exists>w. writeUInt8 (jsOr (int k) 0x80) = Inr w \<and> unat w AND 0x80 \<noteq> 0
             \<and> unat w AND 0x7f = k"
proof -
  from assms have "k = 1 \<or> k = 2 \<or> k = 3 \<or> k = 4 \<or> k = 5 \<or> k = 6" by arith
  then show ?thesis
    by (elim disjE) (simp_all add: jsOr_def writeUInt8_def)
qed

lemma fromDER_decodeTLV_shallow:
  "decodeTLV (newBufferVisitor b 0 0) = Inr (a, v) \<Longrightarrow> fromDER b False = Inr a"
  by (simp add: fromDER_def fromDER_internal.simps)

text \<open>
  C1, as the code has it. For every object built by the constructor with one of the four
  classes, a tag in \<open>0..30\<close> and fewer than \<open>2^48\<close> value octets, and whose tag number is
  not 5 unless it has no value octets, \<open>toDER\<close> succeeds and \<open>fromDER\<close> of the result is
  an object with the same value octets, class, tag and \<open>isCompound\<close>.
\<close>

theorem roundtrip:
  assumes tg: "t \<le> 30" and len: "length d < 2 ^ 48" and nul: "t \<noteq> NULL \<or> d = []"
  shows "\<exists>b n. toDER (newASN1 c t d ic) = Inr b \<and> fromDER b False = Inr n
           \<and> bytes n = d \<and> tagClass n = c \<and> tag n = t
           \<and> isCompound n = isCompound (newASN1 c t d ic)"
proof -
  let ?ic = "ic \<or> t = SEQUENCE \<or> t = SET"
  let ?n = "newASN1 c t d ic"
  have n: "tagClass ?n = c" "tag ?n = t" "bytes ?n = d" "isCompound ?n = ?ic"
    by (simp_all add: newASN1_def)
  from idOctet [OF tg, of ?ic c] obtain o1 where
    o1: "writeUInt8 (if ?ic then jsOr (jsOr (int (classValue c)) (int t)) 0x20
                     else jsOr (int (classValue c)) (int t)) = Inr o1"
    and o1c: "unat o1 AND 0xc0 = classValue c" and o1t: "unat o1 AND 0x1f = t"
    and o1i: "(unat o1 AND 0x20 = 0x20) = ?ic" by blast
  have cls: "classOf (classValue c) = c" by (cases c) (simp_all add: classOf_def)
  have nul': "\<not> (length d \<noteq> 0 \<and> unat o1 AND 0x1f = NULL)" using nul o1t by auto
  have res: "newASN1 (classOf (unat o1 AND 0xc0)) (unat o1 AND 0x1f) d (unat o1 AND 0x20 = 0x20) = ?n"
    by (simp only: o1c o1t o1i cls) (simp add: newASN1_def)
  from getValueLengthByte_ok [OF len] obtain k where k: "getValueLengthByte (length d) = Inr k"
    by blast
  from getValueLengthByte_Inr [OF k] show ?thesis
  proof (elim disjE conjE)
    assume k0: "k = 0" and short: "length d \<le> 127"
    let ?o2 = "word_of_nat (length d) :: byte"
    have u2: "unat ?o2 = length d" using short by (simp add: unat_of_nat)
    have w2: "writeUInt8 (int (length d)) = Inr ?o2" using short by (simp add: writeUInt8_def)
    have enc: "toDER ?n = Inr (o1 # ?o2 # d)"
      using o1 by (simp add: toDER_def n k k0 w2 Let_def)
    have g: "getValueLength \<lparr> start = 0, endp = 1, buf = o1 # ?o2 # d \<rparr>
           = Inr (length d, \<lparr> start = 1, endp = int (length (o1 # [?o2])), buf = o1 # ?o2 # d \<rparr>)"
      using getValueLength_short [of ?o2 o1 d] short by (simp add: u2)
    have "decodeTLV (newBufferVisitor (o1 # ?o2 # d) 0 0)
           = Inr (?n, \<lparr> start = int (length (o1 # [?o2])),
                    endp = int (length (o1 # [?o2])) + int (length d), buf = o1 # ?o2 # d \<rparr>)"
      using decodeTLV_after_length [OF g _ nul'] by (simp only: res) simp
    then have "fromDER (o1 # ?o2 # d) False = Inr ?n" by (rule fromDER_decodeTLV_shallow)
    with enc n show ?thesis by metis
  next
    assume k1: "1 \<le> k" and k6: "k \<le> 6" and long: "127 < length d" and fit: "length d < 256 ^ k"
    from lenOctet [OF k1 k6] obtain o2 where
      w2: "writeUInt8 (jsOr (int k) 0x80) = Inr o2" and o2a: "unat o2 AND 0x80 \<noteq> 0"
      and o2b: "unat o2 AND 0x7f = k" by blast
    let ?lb = "beBytes k (length d)"
    have fit': "\<not> (2::nat) ^ (8 * k) \<le> length d"
      using fit by (simp add: power_mult)
    have wl: "writeUIntBE (length d) k = Inr ?lb"
      using k1 k6 fit' by (simp add: writeUIntBE_def)
    have enc: "toDER ?n = Inr (o1 # o2 # ?lb @ d)"
      using o1 k1 by (simp add: toDER_def n k w2 wl Let_def)
    have g: "getValueLength \<lparr> start = 0, endp = 1, buf = o1 # o2 # ?lb @ d \<rparr>
           = Inr (length d, \<lparr> start = 2, endp = int (length (o1 # (o2 # ?lb))),
                             buf = o1 # o2 # ?lb @ d \<rparr>)"
      using getValueLength_long [OF o2a o2b k1 k6 length_beBytes [of k "length d"], of o1 d]
      by (simp add: beValue_beBytes [OF fit] length_beBytes)
    have "decodeTLV (newBufferVisitor (o1 # o2 # ?lb @ d) 0 0)
           = Inr (?n, \<lparr> start = int (length (o1 # (o2 # ?lb))),
                    endp = int (length (o1 # (o2 # ?lb))) + int (length d),
                    buf = o1 # o2 # ?lb @ d \<rparr>)"
      using decodeTLV_after_length [OF g _ nul'] by (simp only: res) simp
    then have "fromDER (o1 # o2 # ?lb @ d) False = Inr ?n" by (rule fromDER_decodeTLV_shallow)
    with enc n show ?thesis by metis
  qed
qed

theorem roundtrip_witness:
  "(4::nat) \<le> 30 \<and> length (replicate 200 (0xAA::byte)) < 2 ^ 48
   \<and> (\<exists>b n. toDER (newASN1 UNIVERSAL 4 (replicate 200 0xAA) False) = Inr b
          \<and> fromDER b False = Inr n
          \<and> bytes n = replicate 200 0xAA \<and> tagClass n = UNIVERSAL \<and> tag n = 4
          \<and> isCompound n = isCompound (newASN1 UNIVERSAL 4 (replicate 200 0xAA) False))"
proof -
  have a: "(4::nat) \<le> 30" by simp
  have b: "length (replicate 200 (0xAA::byte)) < 2 ^ 48" by simp
  have c: "(4::nat) \<noteq> NULL \<or> replicate 200 (0xAA::byte) = []" by (simp add: NULL_def)
  from roundtrip [OF a b c, of UNIVERSAL False] a b show ?thesis by blast
qed

text \<open>
  A \<open>UNIVERSAL\<close> object with tag 5 and one value octet is encoded by \<open>toDER\<close>, and the
  decoder rejects the encoding: tag 5 with content does not make the round trip.
\<close>

theorem roundtrip_null_counterexample:
  "toDER (newASN1 UNIVERSAL NULL [0x00] False) = Inr [0x05, 0x01, 0x00]
   \<and> fromDER [0x05, 0x01, 0x00] False = Inl (Error ''invalid value length or NULL tag.'')"
  by (simp add: toDER_def newASN1_def getValueLengthByte_def writeUInt8_def jsOr_def
      fromDER_internal_shallow decode_defs)


section \<open>INTEGER\<close>

text \<open>
  \<open>buf.writeInt8(value, offset)\<close>, \<open>buf.writeIntBE(value, offset, byteLength)\<close> and
  \<open>buf.readIntBE(offset, byteLength)\<close> of Node.js: two's complement, big-endian, with the
  range checks of the API.
\<close>

definition writeInt8 :: "int \<Rightarrow> error + byte" where
  "writeInt8 v = (if v < - 0x80 \<or> 0x7f < v then Inl RangeError else Inr (word_of_int v))"

definition writeIntBE :: "int \<Rightarrow> nat \<Rightarrow> error + Buffer" where
  "writeIntBE v byteLength =
     (if byteLength < 1 \<or> 6 < byteLength then Inl RangeError
      else if v < - (2 ^ (8 * byteLength - 1)) \<or> 2 ^ (8 * byteLength - 1) \<le> v
      then Inl RangeError
      else Inr (beBytes byteLength (nat (v mod 2 ^ (8 * byteLength)))))"

definition twosComplement :: "nat \<Rightarrow> int \<Rightarrow> int" where
  "twosComplement bits u = (if 2 ^ (bits - 1) \<le> u then u - 2 ^ bits else u)"

definition readIntBE :: "Buffer \<Rightarrow> int \<Rightarrow> int \<Rightarrow> error + int" where
  "readIntBE b offset byteLength =
     (if byteLength < 1 \<or> 6 < byteLength then Inl RangeError
      else if offset < 0 \<or> int (length b) < offset + byteLength then Inl RangeError
      else Inr (twosComplement (8 * nat byteLength)
                  (int (beValue (take (nat byteLength) (drop (nat offset) b))))))"

text \<open>\<open>fits k v\<close>: the integer \<open>v\<close> has a two's complement form of \<open>k\<close> octets.\<close>

definition fits :: "nat \<Rightarrow> int \<Rightarrow> bool" where
  "fits k v \<longleftrightarrow> - (2 ^ (8 * k - 1)) \<le> v \<and> v < 2 ^ (8 * k - 1)"

text \<open>
  \<open>ASN1.Integer(val: number | Buffer)\<close> and \<open>ASN1.parseInteger(buf): number | string\<close>.
  A number argument is an integer here; \<open>Number.isSafeInteger\<close> then is the bound
  \<open>2^53 - 1\<close> on its magnitude.
\<close>

datatype numberOrBuffer = Number int | Buf Buffer
datatype numberOrString = Num int | Str string

definition INTEGER :: nat where "INTEGER = 2"

definition isSafeInteger :: "int \<Rightarrow> bool" where
  "isSafeInteger v \<longleftrightarrow> - (2 ^ 53 - 1) \<le> v \<and> v \<le> 2 ^ 53 - 1"

definition Integer :: "numberOrBuffer \<Rightarrow> error + ASN1" where
  "Integer val =
     (case val of
        Buf b \<Rightarrow> Inr (setValue Other (newASN1 UNIVERSAL INTEGER b False))
      | Number v \<Rightarrow>
          if \<not> isSafeInteger v then Inl (Error ''ASN1 syntax error: invalid integer'')
          else
            (case (if - 0x80 \<le> v \<and> v < 0x80
                   then (case writeInt8 v of Inl e \<Rightarrow> Inl e | Inr w \<Rightarrow> Inr [w])
                   else if - 0x8000 \<le> v \<and> v < 0x8000 then writeIntBE v 2
                   else if - 0x800000 \<le> v \<and> v < 0x800000 then writeIntBE v 3
                   else if - 0x80000000 \<le> v \<and> v < 0x80000000 then writeIntBE v 4
                   else if - 0x8000000000 \<le> v \<and> v < 0x8000000000 then writeIntBE v 5
                   else if - 0x800000000000 \<le> v \<and> v < 0x800000000000 then writeIntBE v 6
                   else Inl (Error ''ASN1 syntax error: invalid Integer''))
             of
               Inl e \<Rightarrow> Inl e
             | Inr b \<Rightarrow> Inr (setValue Other (newASN1 UNIVERSAL INTEGER b False))))"

text \<open>\<open>buf.toString('hex')\<close>: two lower-case hexadecimal digits for each octet.\<close>

definition hexDigit :: "nat \<Rightarrow> char" where
  "hexDigit n = ''0123456789abcdef'' ! n"

definition toHex :: "Buffer \<Rightarrow> string" where
  "toHex b = concat (map (\<lambda>x. [hexDigit (unat x div 16), hexDigit (unat x mod 16)]) b)"

definition parseInteger :: "Buffer \<Rightarrow> error + numberOrString" where
  "parseInteger b =
     (if length b = 0 then Inl (Error ''ASN1 syntax error: invalid Integer'')
      else if 6 < length b then Inr (Str (toHex b))
      else (case readIntBE b 0 (int (length b)) of
              Inl e \<Rightarrow> Inl e
            | Inr v \<Rightarrow> Inr (Num v)))"

lemma twosComplement_mod:
  assumes "1 \<le> k" and "fits k v"
  shows "twosComplement (8 * k) (v mod 2 ^ (8 * k)) = v"
proof -
  from assms(1) obtain n where n: "8 * k = Suc n" by (cases k) auto
  from assms(2) have lo: "- (2 ^ n) \<le> v" and hi: "v < 2 ^ n" by (simp_all add: fits_def n)
  show ?thesis
  proof (cases "0 \<le> v")
    case True
    with hi have "v mod 2 ^ Suc n = v" by simp
    with hi show ?thesis by (simp add: twosComplement_def n)
  next
    case False
    then have "v mod 2 ^ Suc n = (v + 2 ^ Suc n) mod 2 ^ Suc n" by simp
    also have "\<dots> = v + 2 ^ Suc n" using lo False by (intro mod_pos_pos_trivial) simp_all
    finally have "v mod 2 ^ Suc n = v + 2 ^ Suc n" .
    with lo show ?thesis by (simp add: twosComplement_def n)
  qed
qed

lemma readIntBE_whole:
  assumes "1 \<le> length b" and "length b \<le> 6"
  shows "readIntBE b 0 (int (length b)) = Inr (twosComplement (8 * length b) (int (beValue b)))"
proof -
  from assms(1) have "b \<noteq> []" by auto
  with assms show ?thesis by (simp add: readIntBE_def)
qed

lemma readIntBE_writeIntBE:
  assumes "1 \<le> k" and "k \<le> 6" and "fits k v"
  shows "\<exists>b. writeIntBE v k = Inr b \<and> length b = k \<and> readIntBE b 0 (int (length b)) = Inr v"
proof -
  let ?u = "v mod 2 ^ (8 * k)"
  let ?b = "beBytes k (nat ?u)"
  have nonneg: "0 \<le> ?u" by simp
  have lt: "nat ?u < 256 ^ k"
  proof -
    have "?u < 2 ^ (8 * k)" by simp
    also have "(2::int) ^ (8 * k) = 256 ^ k" by (simp add: power_mult)
    finally have "?u < int (256 ^ k)" by simp
    then show ?thesis using nonneg by linarith
  qed
  have w: "writeIntBE v k = Inr ?b"
    using assms by (auto simp: writeIntBE_def fits_def)
  have l: "length ?b = k" by (rule length_beBytes)
  have "beValue ?b = nat ?u" using lt by (rule beValue_beBytes)
  then have r: "int (beValue ?b) = ?u" using nonneg by simp
  have "readIntBE ?b 0 (int (length ?b)) = Inr (twosComplement (8 * length ?b) (int (beValue ?b)))"
    using assms(1,2) by (intro readIntBE_whole) (simp_all only: l)
  also have "\<dots> = Inr v"
    by (simp only: l r twosComplement_mod [OF assms(1,3)])
  finally show ?thesis using w l by blast
qed

lemma readIntBE_writeInt8:
  assumes "fits 1 v"
  shows "\<exists>w. writeInt8 v = Inr w \<and> readIntBE [w] 0 (int (length [w])) = Inr v"
proof -
  let ?w = "word_of_int v :: byte"
  have "int (unat ?w) = uint ?w" by (rule uint_nat [symmetric])
  also have "\<dots> = v mod 2 ^ (8 * 1)" by (simp add: uint_word_of_int)
  finally have u: "int (beValue [?w]) = v mod 2 ^ (8 * 1)"
    by (simp add: beValue_def)
  have "readIntBE [?w] 0 (int (length [?w])) = Inr (twosComplement (8 * length [?w]) (int (beValue [?w])))"
    by (intro readIntBE_whole) simp_all
  also have "\<dots> = Inr (twosComplement (8 * 1) (v mod 2 ^ (8 * 1)))"
    by (simp only: u) simp
  also have "\<dots> = Inr v"
    using twosComplement_mod [of 1 v] assms by simp
  finally have "readIntBE [?w] 0 (int (length [?w])) = Inr v" .
  moreover have "writeInt8 v = Inr ?w" using assms by (simp add: writeInt8_def fits_def)
  ultimately show ?thesis by blast
qed

lemma fits_mono:
  assumes "fits j v" and "j \<le> k"
  shows "fits k v"
proof -
  from assms(2) have "(2::int) ^ (8 * j - 1) \<le> 2 ^ (8 * k - 1)"
    by (intro power_increasing) simp_all
  with assms(1) show ?thesis unfolding fits_def by linarith
qed

lemma fits_numeral:
  "fits 1 v \<longleftrightarrow> - 0x80 \<le> v \<and> v < 0x80"
  "fits 2 v \<longleftrightarrow> - 0x8000 \<le> v \<and> v < 0x8000"
  "fits 3 v \<longleftrightarrow> - 0x800000 \<le> v \<and> v < 0x800000"
  "fits 4 v \<longleftrightarrow> - 0x80000000 \<le> v \<and> v < 0x80000000"
  "fits 5 v \<longleftrightarrow> - 0x8000000000 \<le> v \<and> v < 0x8000000000"
  "fits 6 v \<longleftrightarrow> - 0x800000000000 \<le> v \<and> v < 0x800000000000"
  by (simp_all add: fits_def)

lemma Integer_bytes:
  "bytes (setValue Other (newASN1 UNIVERSAL INTEGER b False)) = b"
  by (simp add: setValue_def newASN1_def)

lemma Integer_width:
  assumes k: "1 \<le> k" "k \<le> 6" and f: "fits k v" and m: "\<forall>j. 1 \<le> j \<and> j < k \<longrightarrow> \<not> fits j v"
  shows "\<exists>b. Integer (Number v) = Inr (setValue Other (newASN1 UNIVERSAL INTEGER b False))
             \<and> length b = k \<and> readIntBE b 0 (int (length b)) = Inr v"
proof -
  from f k have "fits 6 v" by (auto intro: fits_mono)
  then have safe: "isSafeInteger v" by (simp add: fits_numeral isSafeInteger_def)
  from k have "k = 1 \<or> k = 2 \<or> k = 3 \<or> k = 4 \<or> k = 5 \<or> k = 6" by arith
  then show ?thesis
  proof (elim disjE)
    assume k1: "k = 1"
    from readIntBE_writeInt8 [of v] f obtain w where
      "writeInt8 v = Inr w" "readIntBE [w] 0 (int (length [w])) = Inr v" by (auto simp: k1)
    moreover from f have "fits 1 v" by (simp only: k1)
    then have "- 0x80 \<le> v \<and> v < 0x80" by (simp only: fits_numeral)
    ultimately show ?thesis using safe
      by (intro exI [of _ "[w]"]) (simp add: Integer_def k1)
  next
    assume k2: "k = 2"
    from m have n: "\<not> fits 1 v" by (simp add: k2)
    from readIntBE_writeIntBE [OF k f] obtain b where
      "writeIntBE v 2 = Inr b" "length b = 2" "readIntBE b 0 (int (length b)) = Inr v"
      by (auto simp: k2)
    then show ?thesis using safe n f
      by (intro exI [of _ b]) (simp add: Integer_def k2 fits_numeral [symmetric])
  next
    assume k3: "k = 3"
    from m have n: "\<not> fits 1 v" "\<not> fits 2 v" by (simp_all add: k3)
    from readIntBE_writeIntBE [OF k f] obtain b where
      "writeIntBE v 3 = Inr b" "length b = 3" "readIntBE b 0 (int (length b)) = Inr v"
      by (auto simp: k3)
    then show ?thesis using safe n f
      by (intro exI [of _ b]) (simp add: Integer_def k3 fits_numeral [symmetric])
  next
    assume k4: "k = 4"
    from m have n: "\<not> fits 1 v" "\<not> fits 2 v" "\<not> fits 3 v" by (simp_all add: k4)
    from readIntBE_writeIntBE [OF k f] obtain b where
      "writeIntBE v 4 = Inr b" "length b = 4" "readIntBE b 0 (int (length b)) = Inr v"
      by (auto simp: k4)
    then show ?thesis using safe n f
      by (intro exI [of _ b]) (simp add: Integer_def k4 fits_numeral [symmetric])
  next
    assume k5: "k = 5"
    from m have n: "\<not> fits 1 v" "\<not> fits 2 v" "\<not> fits 3 v" "\<not> fits 4 v"
      by (simp_all add: k5)
    from readIntBE_writeIntBE [OF k f] obtain b where
      "writeIntBE v 5 = Inr b" "length b = 5" "readIntBE b 0 (int (length b)) = Inr v"
      by (auto simp: k5)
    then show ?thesis using safe n f
      by (intro exI [of _ b]) (simp add: Integer_def k5 fits_numeral [symmetric])
  next
    assume k6: "k = 6"
    from m have n: "\<not> fits 1 v" "\<not> fits 2 v" "\<not> fits 3 v" "\<not> fits 4 v" "\<not> fits 5 v"
      by (simp_all add: k6)
    from readIntBE_writeIntBE [OF k f] obtain b where
      "writeIntBE v 6 = Inr b" "length b = 6" "readIntBE b 0 (int (length b)) = Inr v"
      by (auto simp: k6)
    then show ?thesis using safe n f
      by (intro exI [of _ b]) (simp add: Integer_def k6 fits_numeral [symmetric])
  qed
qed

lemma least_width:
  assumes "fits 6 v"
  shows "\<exists>k. 1 \<le> k \<and> k \<le> 6 \<and> fits k v \<and> (\<forall>j. 1 \<le> j \<and> j < k \<longrightarrow> \<not> fits j v)"
proof -
  define k where "k = (LEAST k. 1 \<le> k \<and> fits k v)"
  have ex: "1 \<le> (6::nat) \<and> fits 6 v" using assms by simp
  from LeastI [of "\<lambda>k. 1 \<le> k \<and> fits k v", OF ex] have a: "1 \<le> k \<and> fits k v"
    by (simp add: k_def)
  from Least_le [of "\<lambda>k. 1 \<le> k \<and> fits k v", OF ex] have b: "k \<le> 6" by (simp add: k_def)
  have "\<not> fits j v" if "1 \<le> j \<and> j < k" for j
    using that not_less_Least [of j "\<lambda>k. 1 \<le> k \<and> fits k v"] by (auto simp: k_def)
  with a b show ?thesis by blast
qed

text \<open>
  C4. For every integer \<open>v\<close> in \<open>[-2^47, 2^47)\<close>, \<open>ASN1.Integer(v)\<close> succeeds and
  \<open>parseInteger\<close> of its value octets is the number \<open>v\<close>; the encoder takes the
  least width of 1 to 6 octets whose two's complement range holds \<open>v\<close>. For every
  buffer of more than 6 octets \<open>parseInteger\<close> returns the hexadecimal string of the
  buffer, not a number.
\<close>

theorem integer_roundtrip:
  "(- (2 ^ 47) \<le> v \<and> v < 2 ^ 47 \<longrightarrow>
      (\<exists>a. Integer (Number v) = Inr a \<and> parseInteger (bytes a) = Inr (Num v)
           \<and> 1 \<le> length (bytes a) \<and> length (bytes a) \<le> 6 \<and> fits (length (bytes a)) v
           \<and> (\<forall>j. 1 \<le> j \<and> j < length (bytes a) \<longrightarrow> \<not> fits j v)))
   \<and> (6 < length b \<longrightarrow> parseInteger b = Inr (Str (toHex b)))"
proof (intro conjI impI)
  assume "- (2 ^ 47) \<le> v \<and> v < 2 ^ 47"
  then have "fits 6 v" by (simp add: fits_def)
  from least_width [OF this] obtain k where
    k: "1 \<le> k" "k \<le> 6" and f: "fits k v" and m: "\<forall>j. 1 \<le> j \<and> j < k \<longrightarrow> \<not> fits j v"
    by blast
  from Integer_width [OF k f m] obtain d where
    d: "Integer (Number v) = Inr (setValue Other (newASN1 UNIVERSAL INTEGER d False))"
       "length d = k" "readIntBE d 0 (int (length d)) = Inr v" by blast
  have "parseInteger d = Inr (Num v)"
    using k d(2,3) by (simp add: parseInteger_def)
  with d k f m show "\<exists>a. Integer (Number v) = Inr a \<and> parseInteger (bytes a) = Inr (Num v)
           \<and> 1 \<le> length (bytes a) \<and> length (bytes a) \<le> 6 \<and> fits (length (bytes a)) v
           \<and> (\<forall>j. 1 \<le> j \<and> j < length (bytes a) \<longrightarrow> \<not> fits j v)"
    by (intro exI [of _ "setValue Other (newASN1 UNIVERSAL INTEGER d False)"])
      (simp add: Integer_bytes)
next
  assume "6 < length b"
  then show "parseInteger b = Inr (Str (toHex b))" by (auto simp: parseInteger_def)
qed

theorem integer_roundtrip_witness:
  "- (2 ^ 47) \<le> (- 129 :: int) \<and> (- 129 :: int) < 2 ^ 47
   \<and> 6 < length [1, 2, 3, 4, 5, 6, 0xff :: byte]
   \<and> (\<exists>a. Integer (Number (- 129)) = Inr a \<and> parseInteger (bytes a) = Inr (Num (- 129))
          \<and> 1 \<le> length (bytes a) \<and> length (bytes a) \<le> 6 \<and> fits (length (bytes a)) (- 129)
          \<and> (\<forall>j. 1 \<le> j \<and> j < length (bytes a) \<longrightarrow> \<not> fits j (- 129)))
   \<and> parseInteger [1, 2, 3, 4, 5, 6, 0xff] = Inr (Str ''010203040506ff'')"
proof -
  have r: "- (2 ^ 47) \<le> (- 129 :: int) \<and> (- 129 :: int) < 2 ^ 47" by simp
  have l: "6 < length [1, 2, 3, 4, 5, 6, 0xff :: byte]" by simp
  have h: "toHex [1, 2, 3, 4, 5, 6, 0xff] = ''010203040506ff''"
    by (simp add: toHex_def hexDigit_def)
  from integer_roundtrip [of "- 129" "[1, 2, 3, 4, 5, 6, 0xff]"] r l h show ?thesis
    by simp
qed


section \<open>BIT STRING\<close>

text \<open>
  \<open>a << n\<close> of JavaScript: the shift count is taken modulo 32 and the result is a
  signed 32-bit value.
\<close>

definition jsShl :: "int \<Rightarrow> nat \<Rightarrow> int" where
  "jsShl a n = sint (push_bit (n mod 32) (word_of_int a :: 32 word))"

text \<open>The class \<open>BitString\<close>: the buffer and the number of valid bits.\<close>

record BitString =
  bitBuf :: Buffer
  bitLen :: int

text \<open>
  \<open>ASN1.parseBitString\<close>. \<open>buf.slice(1)\<close> ends at the length of the buffer.
\<close>

definition parseBitString :: "Buffer \<Rightarrow> error + BitString" where
  "parseBitString b =
     (if length b = 0 then Inl (Error ''ASN1 syntax error: invalid BitString'')
      else
        let paddingBits = unat (b ! 0)
        in if 7 < paddingBits
              \<or> (length b = 1 \<and> 0 < paddingBits)
              \<or> jsAnd (int (unat (b ! (length b - 1)))) (jsShl 1 (unat (b ! 0)) - 1) \<noteq> 0
           then Inl (Error ''ASN1 syntax error: invalid padding bits in BIT STRING'')
           else Inr \<lparr> bitBuf = slice b 1 (int (length b)),
                      bitLen = (int (length b) - 1) * 8 - int paddingBits \<rparr>)"

lemma slice_tail: "b \<noteq> [] \<Longrightarrow> slice b 1 (int (length b)) = tl b"
  by (cases b) (simp_all add: slice_def clampIndex_def Let_def)

lemma mask_low:
  assumes "p \<le> 7"
  shows "jsAnd (int (unat (x::byte))) (jsShl 1 p - 1) = int (unat x mod 2 ^ p)"
proof -
  have m: "jsShl 1 p - 1 = 2 ^ p - 1"
  proof -
    from assms have "p = 0 \<or> p = 1 \<or> p = 2 \<or> p = 3 \<or> p = 4 \<or> p = 5 \<or> p = 6 \<or> p = 7" by arith
    then show ?thesis by (elim disjE) (simp_all add: jsShl_def)
  qed
  have "(word_of_int (int (unat x)) :: 32 word) AND word_of_int (2 ^ p - 1)
          = take_bit p (word_of_nat (unat x))"
    by (simp add: take_bit_eq_mask mask_eq_exp_minus_1)
  also have "\<dots> = word_of_nat (take_bit p (unat x))"
    by (simp add: of_nat_take_bit)   
  finally have w: "(word_of_int (int (unat x)) :: 32 word) AND word_of_int (2 ^ p - 1)
          = word_of_nat (unat x mod 2 ^ p)" by (simp add: take_bit_eq_mod)
  have "unat x mod 2 ^ p < 2 ^ 7" 
  proof -
    have "unat x mod 2 ^ p < 2 ^ p" by simp
    also have "(2::nat) ^ p \<le> 2 ^ 7" using assms by (intro power_increasing) simp_all
    finally show ?thesis .
  qed
  then have "int (unat x mod 2 ^ p) < 2 ^ 31" by simp
  then have s: "sint (word_of_nat (unat x mod 2 ^ p) :: 32 word) = int (unat x mod 2 ^ p)"
    by (simp add: signed_of_nat signed_take_bit_int_eq_self)
  have "jsAnd (int (unat x)) (jsShl 1 p - 1)
          = sint ((word_of_int (int (unat x)) :: 32 word) AND word_of_int (2 ^ p - 1))"
    by (simp only: jsAnd_def m)
  also have "\<dots> = sint (word_of_nat (unat x mod 2 ^ p) :: 32 word)" by (simp only: w)
  finally show ?thesis by (simp only: s)
qed

text \<open>
  C5. \<open>parseBitString\<close> throws a syntax error exactly when the buffer is empty, or its
  first octet (the number of padding bits) exceeds 7, or it consists of that octet
  alone with a padding that is not 0, or the low \<open>buf[0]\<close> bits of the last octet are
  not all 0. Otherwise it returns the buffer without its first octet, with bit length
  \<open>(buf.length - 1) * 8 - padding\<close>.
\<close>

theorem parseBitString_contract:
  "((\<exists>m. parseBitString b = Inl (Error m))
      \<longleftrightarrow> (b = [] \<or> 7 < unat (hd b) \<or> (length b = 1 \<and> 0 < unat (hd b))
           \<or> unat (last b) mod 2 ^ unat (hd b) \<noteq> 0))
   \<and> ((\<exists>m. parseBitString b = Inl (Error m))
        \<or> parseBitString b = Inr \<lparr> bitBuf = tl b,
                                     bitLen = (int (length b) - 1) * 8 - int (unat (hd b)) \<rparr>)"
proof (cases "b = []")
  case True
  then show ?thesis by (simp add: parseBitString_def)
next
  case False
  then have h: "b ! 0 = hd b" and l: "b ! (length b - Suc 0) = last b"
    by (simp_all add: hd_conv_nth last_conv_nth)
  show ?thesis
  proof (cases "7 < unat (hd b)")
    case True
    with False show ?thesis by (simp add: parseBitString_def h Let_def)
  next
    case p: False
    then have "unat (hd b) \<le> 7" by simp
    from mask_low [OF this, of "last b"] False show ?thesis
      by (simp add: parseBitString_def h l Let_def slice_tail)
  qed
qed

theorem parseBitString_contract_witness:
  "parseBitString [0x04, 0xAB, 0xF0] = Inr \<lparr> bitBuf = [0xAB, 0xF0], bitLen = 12 \<rparr>
   \<and> (\<exists>m. parseBitString [0x04, 0xAB, 0xF8] = Inl (Error m))
   \<and> (\<exists>m. parseBitString [0x08, 0xAB, 0x00] = Inl (Error m))
   \<and> (\<exists>m. parseBitString [0x01] = Inl (Error m))"
proof -
  have a: "\<not> ([0x04, 0xAB, 0xF0 :: byte] = [] \<or> 7 < unat (hd [0x04, 0xAB, 0xF0 :: byte])
        \<or> (length [0x04, 0xAB, 0xF0 :: byte] = 1 \<and> 0 < unat (hd [0x04, 0xAB, 0xF0 :: byte]))
        \<or> unat (last [0x04, 0xAB, 0xF0 :: byte]) mod 2 ^ unat (hd [0x04, 0xAB, 0xF0 :: byte]) \<noteq> 0)"
    by simp
  have b: "unat (last [0x04, 0xAB, 0xF8 :: byte]) mod 2 ^ unat (hd [0x04, 0xAB, 0xF8 :: byte]) \<noteq> 0"
    by simp
  have c: "7 < unat (hd [0x08, 0xAB, 0x00 :: byte])" by simp
  have d: "length [0x01 :: byte] = 1 \<and> 0 < unat (hd [0x01 :: byte])" by simp
  from parseBitString_contract [of "[0x04, 0xAB, 0xF0]"] a
  have "parseBitString [0x04, 0xAB, 0xF0] = Inr \<lparr> bitBuf = [0xAB, 0xF0], bitLen = 12 \<rparr>"
    by auto
  moreover from parseBitString_contract [of "[0x04, 0xAB, 0xF8]"] b
  have "\<exists>m. parseBitString [0x04, 0xAB, 0xF8] = Inl (Error m)" by blast
  moreover from parseBitString_contract [of "[0x08, 0xAB, 0x00]"] c
  have "\<exists>m. parseBitString [0x08, 0xAB, 0x00] = Inl (Error m)" by blast
  moreover from parseBitString_contract [of "[0x01]"] d
  have "\<exists>m. parseBitString [0x01] = Inl (Error m)" by blast
  ultimately show ?thesis by blast
qed


section \<open>OBJECT IDENTIFIER\<close>

text \<open>\<open>a >>> n\<close> of JavaScript: an unsigned shift of the value taken modulo \<open>2^32\<close>.\<close>

definition jsUShr :: "int \<Rightarrow> nat \<Rightarrow> int" where
  "jsUShr a n = uint (drop_bit (n mod 32) (word_of_int a :: 32 word))"

definition OID_tag :: nat where "OID_tag = 6"

text \<open>
  \<open>str.split(sep)\<close> for a separator of one character. Strings are lists of characters
  with codes below 256, which covers every character the codec tells apart.
\<close>

fun split :: "char \<Rightarrow> string \<Rightarrow> string list" where
  "split sep [] = [[]]"
| "split sep (c # cs) =
     (if c = sep then [] # split sep cs
      else (case split sep cs of
              [] \<Rightarrow> [[c]]
            | piece # pieces \<Rightarrow> (c # piece) # pieces))"

text \<open>
  \<open>parseInt(str, 10)\<close>: leading white space is skipped, one sign is accepted, then the
  longest run of decimal digits is read; without a digit the result is \<open>NaN\<close>, here
  \<open>None\<close>. The result is the exact integer, as in JavaScript for magnitudes up to
  \<open>2^53\<close>.
\<close>

definition isWhiteSpace :: "char \<Rightarrow> bool" where
  "isWhiteSpace c \<longleftrightarrow> (of_char c :: nat) \<in> {9, 10, 11, 12, 13, 32, 160}"

definition isDigit :: "char \<Rightarrow> bool" where
  "isDigit c \<longleftrightarrow> 48 \<le> (of_char c :: nat) \<and> (of_char c :: nat) \<le> 57"

definition digitValue :: "char \<Rightarrow> nat" where
  "digitValue c = of_char c - 48"

definition parseInt :: "string \<Rightarrow> int option" where
  "parseInt str =
     (let s = dropWhile isWhiteSpace str;
          sign = (case s of c # r \<Rightarrow> if c = CHR ''-'' then - 1 else 1 | [] \<Rightarrow> (1::int));
          s = (case s of c # r \<Rightarrow> if c = CHR ''-'' \<or> c = CHR ''+'' then r else s | [] \<Rightarrow> s);
          z = takeWhile isDigit s
      in if z = [] then None
         else Some (sign * int (foldl (\<lambda>acc c. acc * 10 + digitValue c) 0 z)))"

definition mustParseInt :: "string \<Rightarrow> error + int" where
  "mustParseInt str =
     (case parseInt str of
        None \<Rightarrow> Inl (Error (''Invalid numeric string \"'' @ str @ ''\" in radix 10.''))
      | Some val \<Rightarrow> Inr val)"

text \<open>The decimal string of an integer number, as \<open>'' + n\<close> yields it.\<close>

definition decimalDigit :: "nat \<Rightarrow> char" where
  "decimalDigit n = ''0123456789'' ! n"

fun natToString :: "nat \<Rightarrow> string" where
  "natToString n =
     (if n < 10 then [decimalDigit n]
      else natToString (n div 10) @ [decimalDigit (n mod 10)])"

declare natToString.simps [simp del]

definition numberToString :: "int \<Rightarrow> string" where
  "numberToString n = (if n < 0 then CHR ''-'' # natToString (nat (- n)) else natToString (nat n))"

lemma jsUShr_less: "0x7f < v \<Longrightarrow> jsUShr v 7 < v"
proof -
  assume v: "0x7f < v"
  have "jsUShr v 7 = (v mod 2 ^ 32) div 2 ^ 7"
    by (simp add: jsUShr_def drop_bit_eq_div uint_div uint_word_of_int)
  also have "\<dots> \<le> v div 2 ^ 7"
    using v by (intro zdiv_mono1) (simp_all add: zmod_le_nonneg_dividend)
  also have "\<dots> < v" using v by simp
  finally show ?thesis .
qed

text \<open>
  \<open>ASN1.OID\<close>. \<open>valueLoop\<close> is the \<open>while\<close> loop that prepends the base-128 octets
  of one arc, \<open>arcsLoop\<close> the \<open>for\<close> loop over the arcs from the third on. An index
  beyond the array yields \<open>undefined\<close>, which \<open>parseInt\<close> reads as the string
  \<open>undefined\<close>. \<open>Buffer.from(bytes)\<close> keeps the low eight bits of every number.
\<close>

function valueLoop :: "int \<Rightarrow> int list \<Rightarrow> int list" where
  "valueLoop v valueBytes =
     (if 0x7f < v
      then let v' = jsUShr v 7 in valueLoop v' (jsOr (jsAnd v' 0x7f) 0x80 # valueBytes)
      else valueBytes)"
  by pat_completeness auto
termination valueLoop
  by (relation "measure (\<lambda>(v, valueBytes). nat v)") (auto dest: jsUShr_less)

declare valueLoop.simps [simp del]

fun arcsLoop :: "string list \<Rightarrow> int list \<Rightarrow> error + int list" where
  "arcsLoop [] bs = Inr bs"
| "arcsLoop (s # ss) bs =
     (case mustParseInt s of
        Inl e \<Rightarrow> Inl e
      | Inr v \<Rightarrow> arcsLoop ss (bs @ valueLoop v [jsAnd v 0x7f]))"

definition element :: "string list \<Rightarrow> nat \<Rightarrow> string" where
  "element values i = (if i < length values then values ! i else ''undefined'')"

definition OID :: "string \<Rightarrow> error + ASN1" where
  "OID val =
     (let values = split CHR ''.'' val
      in if length values = 0 then Inl (Error ''ASN1 syntax error: invalid Object Identifier'')
         else
           (case mustParseInt (element values 0) of
              Inl e \<Rightarrow> Inl e
            | Inr v0 \<Rightarrow>
                (case mustParseInt (element values 1) of
                   Inl e \<Rightarrow> Inl e
                 | Inr v1 \<Rightarrow>
                     (case arcsLoop (drop 2 values) [40 * v0 + v1] of
                        Inl e \<Rightarrow> Inl e
                      | Inr bs \<Rightarrow>
                          Inr (setValue Other
                                 (newASN1 UNIVERSAL OID_tag (map word_of_int bs) False))))))"

text \<open>\<open>ASN1.parseOID\<close>; \<open>parseArcs\<close> is its \<open>for\<close> loop.\<close>

fun parseArcs :: "Buffer \<Rightarrow> int \<Rightarrow> string \<Rightarrow> string" where
  "parseArcs [] high oid = oid"
| "parseArcs (b # bs) high oid =
     (if 0x80 \<le> unat b
      then parseArcs bs (jsShl (high + jsAnd (int (unat b)) 0x7F) 7) oid
      else parseArcs bs 0 (oid @ ''.'' @ numberToString (high + int (unat b))))"

definition parseOID :: "Buffer \<Rightarrow> error + string" where
  "parseOID b =
     (if length b = 0 then Inl (Error ''ASN1 syntax error: invalid OID'')
      else Inr (parseArcs (tl b) 0
                  (numberToString (int (unat (b ! 0) div 40)) @ ''.''
                     @ numberToString (int (unat (b ! 0) mod 40)))))"

text \<open>
  The dotted-decimal string of a list of arcs, each arc written without sign and without
  leading zeros.
\<close>

fun join :: "string list \<Rightarrow> string" where
  "join [] = []"
| "join [x] = x"
| "join (x # y # zs) = x @ ''.'' @ join (y # zs)"

definition dotted :: "nat list \<Rightarrow> string" where
  "dotted arcs = join (map natToString arcs)"

text \<open>
  The octets of one arc in base 128, most significant first, with the high bit set on
  every octet but the last.
\<close>

fun contBytes :: "nat \<Rightarrow> nat list" where
  "contBytes v =
     (if v \<le> 127 then [] else contBytes (v div 128) @ [128 + (v div 128) mod 128])"

declare contBytes.simps [simp del]

definition arcBytes :: "nat \<Rightarrow> nat list" where
  "arcBytes v = contBytes v @ [v mod 128]"

lemma decimalDigit_facts:
  assumes "k < 10"
  shows "isDigit (decimalDigit k)" and "digitValue (decimalDigit k) = k"
proof -
  from assms have "k = 0 \<or> k = 1 \<or> k = 2 \<or> k = 3 \<or> k = 4 \<or> k = 5 \<or> k = 6 \<or> k = 7
      \<or> k = 8 \<or> k = 9" by arith
  then show "isDigit (decimalDigit k)" and "digitValue (decimalDigit k) = k"
    by (elim disjE; simp add: decimalDigit_def isDigit_def digitValue_def)+
qed

lemma natToString_digits: "\<forall>c \<in> set (natToString n). isDigit c"
proof (induction n rule: natToString.induct)
  case (1 n)
  show ?case
  proof (cases "n < 10")
    case True
    then show ?thesis by (subst natToString.simps) (simp add: decimalDigit_facts)
  next
    case False
    have "n mod 10 < 10" by simp
    then have "isDigit (decimalDigit (n mod 10))" by (rule decimalDigit_facts)
    with 1 False show ?thesis by (subst natToString.simps) simp
  qed
qed

lemma natToString_nonempty: "natToString n \<noteq> []"
  by (subst natToString.simps) simp

lemma digitValue_char: "k < 10 \<Longrightarrow> digitValue (decimalDigit k) = k"
  by (rule decimalDigit_facts)

lemma natToString_value:
  "foldl (\<lambda>acc c. acc * 10 + digitValue c) 0 (natToString n) = n"
proof (induction n rule: natToString.induct)
  case (1 n)
  show ?case
  proof (cases "n < 10")
    case True
    then show ?thesis by (subst natToString.simps) (simp add: digitValue_char)
  next
    case False
    have "digitValue (decimalDigit (n mod 10)) = n mod 10" by (simp add: digitValue_char)
    with 1 False show ?thesis by (subst natToString.simps) simp
  qed
qed

lemma digit_facts:
  assumes "isDigit c"
  shows "\<not> isWhiteSpace c" and "c \<noteq> CHR ''-''" and "c \<noteq> CHR ''+''" and "c \<noteq> CHR ''.''"
  using assms by (auto simp: isDigit_def isWhiteSpace_def)

lemma parseInt_natToString: "parseInt (natToString n) = Some (int n)"
proof -
  obtain c cs where s: "natToString n = c # cs"
    using natToString_nonempty [of n] by (cases "natToString n") auto
  have d: "\<forall>x \<in> set (c # cs). isDigit x" using natToString_digits [of n] by (simp add: s)
  then have c: "isDigit c" by simp
  have tw: "takeWhile isDigit (c # cs) = c # cs" using d by (simp add: takeWhile_eq_all_conv)
  have "parseInt (c # cs) = Some (int (foldl (\<lambda>acc c. acc * 10 + digitValue c) 0 (c # cs)))"
    unfolding parseInt_def using digit_facts [OF c] tw by (simp add: Let_def)
  then show ?thesis using natToString_value [of n] by (simp add: s)
qed

lemma split_no_sep: "sep \<notin> set xs \<Longrightarrow> split sep xs = [xs]"
  by (induction xs) auto

lemma split_append: "sep \<notin> set xs \<Longrightarrow> split sep (xs @ sep # ys) = xs # split sep ys"
  by (induction xs) auto

lemma natToString_no_dot: "CHR ''.'' \<notin> set (natToString n)"
  using natToString_digits [of n] digit_facts(4) by blast

lemma split_dotted: "arcs \<noteq> [] \<Longrightarrow> split CHR ''.'' (dotted arcs) = map natToString arcs"
proof (induction arcs rule: induct_list012)
  case 1
  then show ?case by simp
next
  case (2 x)
  then show ?case by (simp add: dotted_def split_no_sep natToString_no_dot)
next
  case (3 x y zs)
  then show ?case
    using split_append [OF natToString_no_dot, of x "join (map natToString (y # zs))"]
    by (simp add: dotted_def)
qed

lemma sint_small: "n < 2 ^ 31 \<Longrightarrow> sint (word_of_nat n :: 32 word) = int n"
proof -
  assume "n < 2 ^ 31"
  then have "int n < 2 ^ 31" by (metis of_nat_less_iff of_nat_numeral of_nat_power)
  then show ?thesis by (simp add: signed_of_nat signed_take_bit_int_eq_self)
qed

lemma jsAnd_low7: "jsAnd (int x) 0x7f = int (x mod 128)"
proof -
  have "(word_of_nat x :: 32 word) AND 127 = take_bit 7 (word_of_nat x)"
    by (simp add: take_bit_eq_mask mask_eq_exp_minus_1)
  also have "\<dots> = word_of_nat (take_bit 7 x)" by (simp add: of_nat_take_bit)
  finally have w: "(word_of_nat x :: 32 word) AND 127 = word_of_nat (x mod 128)"
    by (simp add: take_bit_eq_mod)
  have "x mod 128 < 2 ^ 31" by (rule less_trans [of _ 128]) simp_all
  from sint_small [OF this] show ?thesis by (simp add: jsAnd_def w)
qed

lemma jsUShr_7: "v < 2 ^ 32 \<Longrightarrow> jsUShr (int v) 7 = int (v div 128)"
proof -
  assume "v < 2 ^ 32"
  then have u: "uint (word_of_nat v :: 32 word) = int v"
    by (simp add: unsigned_of_nat take_bit_nat_eq_self)
  show ?thesis
    by (simp add: jsUShr_def drop_bit_eq_div uint_div u zdiv_int)
qed

lemma jsShl_7: "x * 128 < 2 ^ 31 \<Longrightarrow> jsShl (int x) 7 = int (x * 128)"
proof -
  assume a: "x * 128 < 2 ^ 31"
  have "push_bit 7 (word_of_nat x :: 32 word) = word_of_nat (x * 128)"
    by (simp add: push_bit_eq_mult)
  with sint_small [OF a] show ?thesis by (simp add: jsShl_def)
qed
lemma low7: "y < 128 \<Longrightarrow> (y::nat) AND 127 = y"
proof -
  assume "y < 128"
  then have "take_bit 7 y = y" by (simp add: take_bit_nat_eq_self)
  then show ?thesis by (simp add: take_bit_eq_mask mask_eq_exp_minus_1)
qed

lemma or_0x80: "y < 128 \<Longrightarrow> (y::nat) OR 128 = 128 + y"
proof -
  assume y: "y < 128"
  have "y AND 128 = (y AND 127) AND 128" using low7 [OF y] by simp
  also have "\<dots> = y AND (127 AND 128)" by (simp only: and.assoc)
  finally have "y AND 128 = 0" by simp
  then have "y + 128 = y OR 128" by (rule disjunctive_add_eq_or)
  then show ?thesis by simp
qed

lemma jsOr_0x80: "y < 128 \<Longrightarrow> jsOr (int y) 0x80 = int (128 + y)"
proof -
  assume y: "y < 128"
  have "(word_of_nat y :: 32 word) OR 128 = word_of_nat (y OR 128)"
    by (simp add: of_nat_or_eq)
  then have w: "(word_of_nat y :: 32 word) OR 128 = word_of_nat (128 + y)"
    by (simp only: or_0x80 [OF y])
  have "128 + y < 2 ^ 31" using y by simp
  from sint_small [OF this] show ?thesis by (simp add: jsOr_def w)
qed

lemma valueLoop_contBytes:
  "v < 2 ^ 32 \<Longrightarrow> valueLoop (int v) acc = map int (contBytes v) @ acc"
proof (induction v arbitrary: acc rule: contBytes.induct)
  case (1 v)
  show ?case
  proof (cases "v \<le> 127")
    case True
    then show ?thesis
      by (subst valueLoop.simps, subst contBytes.simps) simp
  next
    case False
    from "1.prems" have lt: "v div 128 < 2 ^ 32" by (simp add: less_mult_imp_div_less)
    have s: "jsUShr (int v) 7 = int (v div 128)" using "1.prems" by (rule jsUShr_7)
    have o: "jsOr (jsAnd (int (v div 128)) 0x7f) 0x80 = int (128 + (v div 128) mod 128)"
      by (simp only: jsAnd_low7) (rule jsOr_0x80, simp)
    have "valueLoop (int v) acc
            = valueLoop (int (v div 128)) (int (128 + (v div 128) mod 128) # acc)"
      using False by (subst valueLoop.simps) (simp only: s o Let_def, simp)
    also have "\<dots> = map int (contBytes (v div 128)) @ (int (128 + (v div 128) mod 128) # acc)"
      using False lt by (rule "1.IH")
    also have "\<dots> = map int (contBytes v) @ acc"
      using False by (subst (2) contBytes.simps) simp
    finally show ?thesis .
  qed
qed

lemma valueLoop_arcBytes:
  "v < 2 ^ 32 \<Longrightarrow> valueLoop (int v) [jsAnd (int v) 0x7f] = map int (arcBytes v)"
  by (simp add: valueLoop_contBytes jsAnd_low7 arcBytes_def)

lemma unat_byte: "c < 256 \<Longrightarrow> unat (word_of_nat c :: byte) = c"
  by (simp add: unat_of_nat)

lemma int_div_mod128: "int ((q div 128) * 128) + int (q mod 128) = int q"
  by (simp only: of_nat_add [symmetric] div_mult_mod_eq)

lemma parseArcs_contBytes:
  "v < 2 ^ 31 \<Longrightarrow>
   parseArcs (map word_of_nat (contBytes v) @ ys) 0 oid
     = parseArcs ys (int ((v div 128) * 128)) oid"
proof (induction v arbitrary: ys rule: contBytes.induct)
  case (1 v)
  show ?case
  proof (cases "v \<le> 127")
    case True
    then show ?thesis by (subst contBytes.simps) simp
  next
    case False
    let ?q = "v div 128"
    let ?c = "128 + ?q mod 128"
    from "1.prems" have lt: "?q < 2 ^ 31" by (simp add: less_mult_imp_div_less)
    have c: "unat (word_of_nat ?c :: byte) = ?c" by (rule unat_byte) simp
    have sm: "?q * 128 < 2 ^ 31"
    proof -
      have "?q * 128 \<le> v" by simp
      with "1.prems" show ?thesis by simp
    qed
    have cm: "?c mod 128 = ?q mod 128" by simp
    have hi: "int ((?q div 128) * 128) + jsAnd (int ?c) 0x7F = int ?q"
      by (simp only: jsAnd_low7 cm int_div_mod128)
    have "parseArcs (map word_of_nat (contBytes v) @ ys) 0 oid
            = parseArcs (map word_of_nat (contBytes ?q) @ (word_of_nat ?c # ys)) 0 oid"
      using False by (subst contBytes.simps) simp
    also have "\<dots> = parseArcs (word_of_nat ?c # ys) (int ((?q div 128) * 128)) oid"
      using False lt by (rule "1.IH")
    also have "\<dots> = parseArcs ys (jsShl (int ((?q div 128) * 128) + jsAnd (int ?c) 0x7F) 7) oid"
      by (simp only: parseArcs.simps c) simp
    also have "\<dots> = parseArcs ys (int (?q * 128)) oid"
      by (simp only: hi jsShl_7 [OF sm])
    finally show ?thesis .
  qed
qed

lemma parseArcs_arcBytes:
  assumes "v < 2 ^ 31"
  shows "parseArcs (map word_of_nat (arcBytes v) @ ys) 0 oid
           = parseArcs ys 0 (oid @ ''.'' @ natToString v)"
proof -
  have u: "unat (word_of_nat (v mod 128) :: byte) = v mod 128" by (rule unat_byte) simp
  have lt: "\<not> 0x80 \<le> unat (word_of_nat (v mod 128) :: byte)" by (simp add: u)
  have n: "numberToString (int ((v div 128) * 128) + int (v mod 128)) = natToString v"
    by (simp only: int_div_mod128) (simp add: numberToString_def)
  have "parseArcs (map word_of_nat (arcBytes v) @ ys) 0 oid
          = parseArcs (map word_of_nat (contBytes v) @ (word_of_nat (v mod 128) # ys)) 0 oid"
    by (simp add: arcBytes_def)
  also have "\<dots> = parseArcs (word_of_nat (v mod 128) # ys) (int ((v div 128) * 128)) oid"
    using assms by (rule parseArcs_contBytes)
  also have "\<dots> = parseArcs ys 0
                     (oid @ ''.'' @ numberToString (int ((v div 128) * 128)
                        + int (unat (word_of_nat (v mod 128) :: byte))))"
    using lt by simp
  also have "\<dots> = parseArcs ys 0 (oid @ ''.'' @ natToString v)"
    by (simp only: u n)
  finally show ?thesis .
qed

lemma parseArcs_all:
  "\<forall>v \<in> set arcs. v < 2 ^ 31 \<Longrightarrow>
   parseArcs (map word_of_nat (concat (map arcBytes arcs))) 0 oid
     = oid @ concat (map (\<lambda>v. ''.'' @ natToString v) arcs)"
proof (induction arcs arbitrary: oid)
  case Nil
  then show ?case by simp
next
  case (Cons v arcs)
  then have v: "v < 2 ^ 31" and r: "\<forall>v \<in> set arcs. v < 2 ^ 31" by simp_all
  have "parseArcs (map word_of_nat (concat (map arcBytes (v # arcs)))) 0 oid
          = parseArcs (map word_of_nat (arcBytes v)
                         @ map word_of_nat (concat (map arcBytes arcs))) 0 oid"
    by simp
  also have "\<dots> = parseArcs (map word_of_nat (concat (map arcBytes arcs))) 0
                     (oid @ ''.'' @ natToString v)"
    using v by (rule parseArcs_arcBytes)
  also have "\<dots> = (oid @ ''.'' @ natToString v) @ concat (map (\<lambda>v. ''.'' @ natToString v) arcs)"
    using r by (rule Cons.IH)
  finally show ?case by simp
qed

lemma mustParseInt_natToString: "mustParseInt (natToString n) = Inr (int n)"
  by (simp add: mustParseInt_def parseInt_natToString)

lemma arcsLoop_all:
  "\<forall>v \<in> set arcs. v < 2 ^ 31 \<Longrightarrow>
   arcsLoop (map natToString arcs) bs = Inr (bs @ map int (concat (map arcBytes arcs)))"
proof (induction arcs arbitrary: bs)
  case Nil
  then show ?case by simp
next
  case (Cons v arcs)
  then have "v < 2 ^ 31" by simp
  then have "v < 2 ^ 32" by simp
  with Cons show ?case
    by (simp add: mustParseInt_natToString valueLoop_arcBytes)
qed

lemma join_Cons: "join (x # xs) = x @ concat (map (\<lambda>s. ''.'' @ s) xs)"
  by (induction xs arbitrary: x) simp_all

text \<open>
  C6, as the code has it. Let \<open>s\<close> be the dotted-decimal string of the arcs
  \<open>a1.a2.rest\<close> with \<open>a2 < 40\<close>, \<open>40 * a1 + a2 < 256\<close> and every later arc below \<open>2^31\<close>.
  Then \<open>ASN1.OID(s)\<close> succeeds, its first octet is \<open>40 * a1 + a2\<close>, each later arc is
  encoded in base 128 with the high bit set on all octets but its last, and
  \<open>parseOID\<close> of these octets is \<open>s\<close> again.
\<close>

theorem oid_roundtrip:
  assumes a2: "a2 < 40" and first: "40 * a1 + a2 < 256" and rest: "\<forall>v \<in> set rest. v < 2 ^ 31"
  shows "\<exists>n. OID (dotted (a1 # a2 # rest)) = Inr n
             \<and> bytes n = map word_of_nat ((40 * a1 + a2) # concat (map arcBytes rest))
             \<and> parseOID (bytes n) = Inr (dotted (a1 # a2 # rest))"
proof -
  let ?s = "dotted (a1 # a2 # rest)"
  let ?enc = "concat (map arcBytes rest)"
  let ?b = "map word_of_nat ((40 * a1 + a2) # ?enc) :: Buffer"
  have sp: "split CHR ''.'' ?s = natToString a1 # natToString a2 # map natToString rest"
    using split_dotted [of "a1 # a2 # rest"] by simp
  have loop: "arcsLoop (map natToString rest) [40 * int a1 + int a2]
                = Inr ([40 * int a1 + int a2] @ map int ?enc)"
    using rest by (rule arcsLoop_all)
  have bs: "map word_of_int ([40 * int a1 + int a2] @ map int ?enc) = ?b"
    by (simp add: comp_def)
  have enc: "OID ?s = Inr (setValue Other (newASN1 UNIVERSAL OID_tag ?b False))"
    unfolding OID_def sp using loop
    by (simp add: Let_def element_def mustParseInt_natToString comp_def)
  have byt: "bytes (setValue Other (newASN1 UNIVERSAL OID_tag ?b False)) = ?b"
    by (simp add: setValue_def newASN1_def)
  have u: "unat (word_of_nat (40 * a1 + a2) :: byte) = 40 * a1 + a2"
    using first by (rule unat_byte)
  have d: "(40 * a1 + a2) div 40 = a1" and m: "(40 * a1 + a2) mod 40 = a2"
    using a2 by simp_all
  have "parseOID ?b
          = Inr (parseArcs (map word_of_nat ?enc) 0 (natToString a1 @ ''.'' @ natToString a2))"
    using u a2 by (simp add: parseOID_def d m numberToString_def)
  also have "\<dots> = Inr ((natToString a1 @ ''.'' @ natToString a2)
                        @ concat (map (\<lambda>v. ''.'' @ natToString v) rest))"
    using rest by (simp only: parseArcs_all)
  also have "\<dots> = Inr ?s"
    by (simp add: dotted_def join_Cons comp_def)
  finally have dec: "parseOID ?b = Inr ?s" .
  from enc byt dec show ?thesis by (intro exI [of _ "setValue Other (newASN1 UNIVERSAL OID_tag ?b False)"]) simp
qed

theorem oid_roundtrip_witness:
  "(2::nat) < 40 \<and> 40 * 1 + 2 < (256::nat) \<and> (840::nat) < 2 ^ 31 \<and> (113549::nat) < 2 ^ 31
   \<and> (\<exists>n. OID ''1.2.840.113549'' = Inr n
          \<and> bytes n = [0x2a, 0x86, 0x48, 0x86, 0xf7, 0x0d]
          \<and> parseOID (bytes n) = Inr ''1.2.840.113549'')"
proof -
  have a: "(2::nat) < 40" and b: "40 * 1 + 2 < (256::nat)"
    and c: "\<forall>v \<in> set [840, 113549 :: nat]. v < 2 ^ 31" by simp_all
  have d: "dotted [1, 2, 840, 113549] = ''1.2.840.113549''"
    by (simp add: dotted_def natToString.simps decimalDigit_def)
  have e: "map word_of_nat ((40 * 1 + 2) # concat (map arcBytes [840, 113549]))
             = [0x2a, 0x86, 0x48, 0x86, 0xf7, 0x0d :: byte]"
    by (simp add: arcBytes_def contBytes.simps)
  from oid_roundtrip [OF a b c] show ?thesis
    unfolding d e using a b by simp
qed

text \<open>
  The string \<open>2.999\<close> has two arcs, both non-negative integers. Its first octet
  \<open>40 * 2 + 999 = 1079\<close> is cut to eight bits, and the octets decode to \<open>1.15\<close>.
\<close>

theorem oid_roundtrip_counterexample:
  "OID ''2.999'' = Inr (ASN1 UNIVERSAL 6 [0x37] False Other)
   \<and> parseOID [0x37] = Inr ''1.15''"
  by code_simp

text \<open>
  Two more strings that do not come back: an arc written with a leading zero is
  returned without it, and the octets of the arc \<open>2^31\<close> decode to a negative number,
  since \<open>high << 7\<close> is a signed 32-bit shift.
\<close>

lemma oid_leading_zero_example:
  "OID ''1.02'' = Inr (ASN1 UNIVERSAL 6 [0x2a] False Other)
   \<and> parseOID [0x2a] = Inr ''1.2''"
  by code_simp

lemma oid_large_arc_example:
  "parseOID [0x2a, 0x88, 0x80, 0x80, 0x80, 0x00] = Inr ''1.2.-2147483648''"
  by (simp add: parseOID_def jsShl_def jsAnd_def numberToString_def natToString.simps
      decimalDigit_def)

end
